theory Spec2Isabelle
  imports Complex_Main "HOL-Library.Log_Nat" "HOL-Library.Word"
begin

unbundle bit_operations_syntax

section \<open>PD120 timing constants and image geometry\<close>

text \<open>
  The \<^verbatim>\<open>uint32_t\<close> and \<^verbatim>\<open>int\<close> quantities of the source are integers here; where a
  \<^verbatim>\<open>uint32_t\<close> is computed, the reduction modulo \<open>2 ^ 32\<close> is written out.
\<close>

definition syncPulseDuration :: int where "syncPulseDuration = 20000"
definition porchDuration :: int where "porchDuration = 2080"
definition scanDuration :: int where "scanDuration = 121600"
definition imageWidth :: int where "imageWidth = 640"
definition imageHeight :: int where "imageHeight = 496"
definition pixelDuration :: int where "pixelDuration = scanDuration div imageWidth"

section \<open>Binary floating point\<close>

text \<open>
  The C++ types \<^verbatim>\<open>float\<close> and \<open>double\<close> are IEEE 754 binary32 and binary64. A finite
  value of either is a rational number, and every arithmetic operation returns the exact
  result rounded to the nearest representable value, ties to the even significand.
  \<open>round_fp p emin\<close> is that rounding for a significand of \<open>p\<close> bits and least normal
  exponent \<open>emin\<close> (below it the spacing stays that of the subnormal numbers). Overflow
  to infinity is not part of the model: no value of this program exceeds \<open>2 ^ 12\<close>.
\<close>

definition rne :: "rat \<Rightarrow> int" where
  "rne q = (let n = \<lfloor>q\<rfloor>; r = q - of_int n in
     if r < 1 / 2 then n else if 1 / 2 < r then n + 1 else if even n then n else n + 1)"

text \<open>
  \<open>ilog2 x\<close> is the binary exponent of a positive \<open>x\<close>, the integer \<open>e\<close> with
  \<open>2 powi e \<le> x < 2 powi (e + 1)\<close>.
\<close>

definition ilog2 :: "rat \<Rightarrow> int" where
  "ilog2 x = (if 1 \<le> x then bitlen \<lfloor>x\<rfloor> - 1 else - bitlen (\<lceil>1 / x\<rceil> - 1))"

definition round_fp :: "nat \<Rightarrow> int \<Rightarrow> rat \<Rightarrow> rat" where
  "round_fp p emin x =
     (if x = 0 then 0
      else let u = 2 powi (max (ilog2 \<bar>x\<bar>) emin - int p + 1)
           in sgn x * of_int (rne (\<bar>x\<bar> / u)) * u)"

definition to_float :: "rat \<Rightarrow> rat" where
  "to_float = round_fp 24 (- 126)"

definition to_double :: "rat \<Rightarrow> rat" where
  "to_double = round_fp 53 (- 1022)"

text \<open>Arithmetic in \<^verbatim>\<open>double\<close> and in \<^verbatim>\<open>float\<close>: the exact result, rounded once.\<close>

definition dadd :: "rat \<Rightarrow> rat \<Rightarrow> rat" where "dadd a b = to_double (a + b)"
definition dmul :: "rat \<Rightarrow> rat \<Rightarrow> rat" where "dmul a b = to_double (a * b)"
definition ddiv :: "rat \<Rightarrow> rat \<Rightarrow> rat" where "ddiv a b = to_double (a / b)"
definition fadd :: "rat \<Rightarrow> rat \<Rightarrow> rat" where "fadd a b = to_float (a + b)"
definition fsub :: "rat \<Rightarrow> rat \<Rightarrow> rat" where "fsub a b = to_float (a - b)"

text \<open>A decimal literal of the source is the \<^verbatim>\<open>double\<close> nearest to it.\<close>

definition dlit :: "rat \<Rightarrow> rat" where "dlit q = to_double q"

section \<open>Faults\<close>

text \<open>
  Two operations of the source have no defined result on some inputs: reading the canvas
  buffer outside its \<open>imageWidth * imageHeight\<close> elements, and converting a floating-point
  value to \<^verbatim>\<open>uint32_t\<close> when its truncation is not a \<^verbatim>\<open>uint32_t\<close>. Both are
  results of the model.
\<close>

datatype fault = OutOfBounds | CastUndefined

definition bind_fault :: "fault + 'a \<Rightarrow> ('a \<Rightarrow> fault + 'b) \<Rightarrow> fault + 'b" where
  "bind_fault m f = (case m of Inl e \<Rightarrow> Inl e | Inr v \<Rightarrow> f v)"

text \<open>\<^verbatim>\<open>(uint32_t) x\<close> for a floating-point \<open>x\<close>: truncation towards zero.\<close>

definition cast_uint32 :: "rat \<Rightarrow> fault + int" where
  "cast_uint32 x =
     (if - 1 < x \<and> x < 2 ^ 32 then Inr (if x < 0 then 0 else \<lfloor>x\<rfloor>)
      else Inl CastUndefined)"

section \<open>Frequency mapping\<close>

text \<open>
  \<^verbatim>\<open>return 1500 + (uint32_t)((Y / 255.0) * 800);\<close> The \<^verbatim>\<open>float\<close> argument is
  widened to \<^verbatim>\<open>double\<close> (exactly), the sum is taken in \<^verbatim>\<open>uint32_t\<close>.
\<close>

definition mapYToFrequency :: "rat \<Rightarrow> fault + int" where
  "mapYToFrequency Y =
     bind_fault (cast_uint32 (dmul (ddiv Y 255) 800))
       (\<lambda>n. Inr ((1500 + n) mod 2 ^ 32))"

text \<open>\<^verbatim>\<open>return 1500 + (uint32_t)(((diff + 128.0) / 255.0) * 800);\<close>\<close>

definition mapDiffToFrequency :: "rat \<Rightarrow> fault + int" where
  "mapDiffToFrequency diff =
     bind_fault (cast_uint32 (dmul (ddiv (dadd diff 128) 255) 800))
       (\<lambda>n. Inr ((1500 + n) mod 2 ^ 32))"

section \<open>Colour conversion\<close>

text \<open>
  \<^verbatim>\<open>Y = 0.299 * R + 0.587 * G + 0.114 * B; RY = 0.713 * (R - Y); BY = 0.564 * (B - Y);\<close>
  The sum of products is evaluated in \<^verbatim>\<open>double\<close> and stored in the \<^verbatim>\<open>float\<close>
  \<open>Y\<close>; \<open>R - Y\<close> is a \<^verbatim>\<open>float\<close> subtraction, its product with the
  \<^verbatim>\<open>double\<close> literal is stored in a \<^verbatim>\<open>float\<close>.
\<close>

definition lumaOf :: "int \<Rightarrow> int \<Rightarrow> int \<Rightarrow> rat" where
  "lumaOf R G B =
     to_float (dadd (dadd (dmul (dlit (299 / 1000)) (of_int R)) (dmul (dlit (587 / 1000)) (of_int G)))
                    (dmul (dlit (114 / 1000)) (of_int B)))"

definition convertToSSTV :: "int \<Rightarrow> int \<Rightarrow> int \<Rightarrow> rat \<times> rat \<times> rat" where
  "convertToSSTV R G B =
     (let Y = lumaOf R G B;
          RY = to_float (dmul (dlit (713 / 1000)) (fsub (of_int R) Y));
          BY = to_float (dmul (dlit (564 / 1000)) (fsub (of_int B) Y))
      in (Y, RY, BY))"

section \<open>The canvas and its pixels\<close>

text \<open>
  \<^verbatim>\<open>canvas->getBuffer()\<close> is an array of \<open>imageWidth * imageHeight\<close> RGB565 words (the
  canvas is constructed with exactly these dimensions); \<open>cv i\<close> is its element \<open>i\<close>.
\<close>

type_synonym canvas = "int \<Rightarrow> 16 word"

datatype SegmentType = SEG_Y | SEG_RY | SEG_BY

text \<open>
  What the program does to the outside: \<open>Tone f\<close> is \<^verbatim>\<open>ledcWriteTone(f)\<close>, \<open>Hold d\<close> a
  wait of \<open>d\<close> microseconds (\<^verbatim>\<open>delayMicroseconds\<close>, or the loop on \<^verbatim>\<open>micros()\<close>),
  \<open>TimerStart d\<close> is \<^verbatim>\<open>esp_timer_start_periodic\<close> with period \<open>d\<close>, \<open>TimerStop\<close> is
  \<^verbatim>\<open>esp_timer_stop\<close> and \<open>LedcStop\<close> is \<^verbatim>\<open>ledc_stop\<close>.
\<close>

datatype event = Tone int | Hold int | TimerStart int | TimerStop | LedcStop

text \<open>
  The global variables of the scan segment, the events emitted so far, and the
  coordinates \<open>(x, y)\<close> passed to \<^verbatim>\<open>getCanvasPixel\<close> so far. The counter is a
  \<^verbatim>\<open>volatile int\<close>; it is an unbounded integer here and never exceeds \<open>imageWidth\<close>
  once a segment has reset it.
\<close>

record tx_state =
  pixelCounter :: int
  rowFinished :: bool
  currentSegment :: SegmentType
  currentRow :: int
  currentRowOdd :: int
  currentRowEven :: int
  emitted :: "event list"
  accessed :: "(int \<times> int) list"

definition emit :: "event \<Rightarrow> tx_state \<Rightarrow> tx_state" where
  "emit e s = s\<lparr>emitted := emitted s @ [e]\<rparr>"

definition ledcWriteTone :: "int \<Rightarrow> tx_state \<Rightarrow> tx_state" where
  "ledcWriteTone frequency s = emit (Tone frequency) s"

text \<open>
  The three channels of an RGB565 word, each rescaled to \<open>0..255\<close>:
  \<^verbatim>\<open>r5 = (pixel >> 11) & 0x1F; R = (r5 * 255) / 31;\<close> and so on.
\<close>

definition rgb565 :: "16 word \<Rightarrow> int \<times> int \<times> int" where
  "rgb565 pixel =
     (let r5 = uint (drop_bit 11 pixel AND 0x1F);
          g6 = uint (drop_bit 5 pixel AND 0x3F);
          b5 = uint (pixel AND 0x1F)
      in ((r5 * 255) div 31, (g6 * 255) div 63, (b5 * 255) div 31))"

definition getCanvasPixel ::
  "canvas \<Rightarrow> int \<Rightarrow> int \<Rightarrow> tx_state \<Rightarrow> fault + ((int \<times> int \<times> int) \<times> tx_state)" where
  "getCanvasPixel cv x y s =
     (let i = y * imageWidth + x in
      if 0 \<le> i \<and> i < imageWidth * imageHeight
      then Inr (rgb565 (cv i), s\<lparr>accessed := accessed s @ [(x, y)]\<rparr>)
      else Inl OutOfBounds)"

section \<open>The timer callback\<close>

text \<open>\<^verbatim>\<open>float avg = (RY1 + RY2) / 2.0;\<close> a \<^verbatim>\<open>float\<close> sum, halved in \<^verbatim>\<open>double\<close>.\<close>

definition averageDiff :: "rat \<Rightarrow> rat \<Rightarrow> rat" where
  "averageDiff d1 d2 = to_float (ddiv (fadd d1 d2) 2)"

definition pixelTimerCallback :: "canvas \<Rightarrow> tx_state \<Rightarrow> fault + tx_state" where
  "pixelTimerCallback cv s =
     bind_fault
       (case currentSegment s of
          SEG_Y \<Rightarrow>
            bind_fault (getCanvasPixel cv (pixelCounter s) (currentRow s) s)
              (\<lambda>((R, G, B), s1).
                 case convertToSSTV R G B of (Y, dummyRY, dummyBY) \<Rightarrow>
                   bind_fault (mapYToFrequency Y) (\<lambda>freq. Inr (freq, s1)))
        | SEG_RY \<Rightarrow>
            bind_fault (getCanvasPixel cv (pixelCounter s) (currentRowOdd s) s)
              (\<lambda>((R1, G1, B1), s1).
                 bind_fault (getCanvasPixel cv (pixelCounter s1) (currentRowEven s1) s1)
                   (\<lambda>((R2, G2, B2), s2).
                      case convertToSSTV R1 G1 B1 of (Y1, RY1, BY1) \<Rightarrow>
                      case convertToSSTV R2 G2 B2 of (Y2, RY2, BY2) \<Rightarrow>
                        bind_fault (mapDiffToFrequency (averageDiff RY1 RY2))
                          (\<lambda>freq. Inr (freq, s2))))
        | SEG_BY \<Rightarrow>
            bind_fault (getCanvasPixel cv (pixelCounter s) (currentRowOdd s) s)
              (\<lambda>((R1, G1, B1), s1).
                 bind_fault (getCanvasPixel cv (pixelCounter s1) (currentRowEven s1) s1)
                   (\<lambda>((R2, G2, B2), s2).
                      case convertToSSTV R1 G1 B1 of (Y1, RY1, BY1) \<Rightarrow>
                      case convertToSSTV R2 G2 B2 of (Y2, RY2, BY2) \<Rightarrow>
                        bind_fault (mapDiffToFrequency (averageDiff BY1 BY2))
                          (\<lambda>freq. Inr (freq, s2)))))
       (\<lambda>(freq, s').
          let s1 = ledcWriteTone freq s';
              s2 = s1\<lparr>pixelCounter := pixelCounter s1 + 1\<rparr>
          in if imageWidth \<le> pixelCounter s2
             then Inr ((emit TimerStop s2)\<lparr>rowFinished := True\<rparr>)
             else Inr s2)"

text \<open>\<open>ticks cv n s\<close>: the callback fired \<open>n\<close> times in a row.\<close>

fun ticks :: "canvas \<Rightarrow> nat \<Rightarrow> tx_state \<Rightarrow> fault + tx_state" where
  "ticks cv 0 s = Inr s"
| "ticks cv (Suc n) s = bind_fault (pixelTimerCallback cv s) (ticks cv n)"

lemma getCanvasPixel_Inr:
  assumes "getCanvasPixel cv x y s = Inr (rgb, s')"
  shows "s' = s\<lparr>accessed := accessed s @ [(x, y)]\<rparr> \<and> rgb = rgb565 (cv (y * imageWidth + x))
    \<and> 0 \<le> y * imageWidth + x \<and> y * imageWidth + x < imageWidth * imageHeight"
  using assms by (auto simp: getCanvasPixel_def Let_def split: if_splits)

lemma pixelTimerCallback_counter:
  assumes "pixelTimerCallback cv s = Inr s'"
  shows "pixelCounter s' = pixelCounter s + 1"
    and "rowFinished s' = (rowFinished s \<or> imageWidth \<le> pixelCounter s + 1)"
  using assms
  by (auto simp: pixelTimerCallback_def bind_fault_def ledcWriteTone_def emit_def Let_def
      split: sum.splits SegmentType.splits prod.splits if_splits
      dest!: getCanvasPixel_Inr)

section \<open>Scan segments\<close>

text \<open>
  \<^verbatim>\<open>while (!rowFinished) { }\<close> is left when the callback has set the flag. While the
  loop spins the periodic timer keeps firing, so the loop is the callback repeated until
  the flag is set.
\<close>

function awaitRowFinished :: "canvas \<Rightarrow> tx_state \<Rightarrow> fault + tx_state" where
  "awaitRowFinished cv s =
     (if rowFinished s then Inr s
      else case pixelTimerCallback cv s of
             Inl e \<Rightarrow> Inl e
           | Inr s' \<Rightarrow> awaitRowFinished cv s')"
  by pat_completeness auto
termination
proof (relation "measure (\<lambda>(cv, s). if rowFinished s then 0 else nat (imageWidth - pixelCounter s) + 1)")
  show "wf (measure (\<lambda>(cv, s). if rowFinished s then 0 else nat (imageWidth - pixelCounter s) + 1))"
    by simp
next
  fix cv s s'
  assume "\<not> rowFinished s" and "pixelTimerCallback cv s = Inr s'"
  then show "((cv, s'), (cv, s))
      \<in> measure (\<lambda>(cv, s). if rowFinished s then 0 else nat (imageWidth - pixelCounter s) + 1)"
    using pixelTimerCallback_counter [of cv s s'] by auto
qed

declare awaitRowFinished.simps [simp del]

definition esp_timer_start_periodic :: "int \<Rightarrow> tx_state \<Rightarrow> tx_state" where
  "esp_timer_start_periodic period s = emit (TimerStart period) s"

text \<open>
  Each of the three segment functions assigns the globals, starts the periodic timer and
  then waits for the flag. \<open>beginLineY\<close>, \<open>beginLineDiffRY\<close> and \<open>beginLineDiffBY\<close> are
  the statements before the loop.
\<close>

definition beginLineY :: "int \<Rightarrow> tx_state \<Rightarrow> tx_state" where
  "beginLineY row s =
     esp_timer_start_periodic pixelDuration
       (s\<lparr>currentSegment := SEG_Y, currentRow := row, pixelCounter := 0, rowFinished := False\<rparr>)"

definition beginLineDiffRY :: "int \<Rightarrow> int \<Rightarrow> tx_state \<Rightarrow> tx_state" where
  "beginLineDiffRY oddRow evenRow s =
     esp_timer_start_periodic pixelDuration
       (s\<lparr>currentSegment := SEG_RY, currentRowOdd := oddRow, currentRowEven := evenRow,
          pixelCounter := 0, rowFinished := False\<rparr>)"

definition beginLineDiffBY :: "int \<Rightarrow> int \<Rightarrow> tx_state \<Rightarrow> tx_state" where
  "beginLineDiffBY oddRow evenRow s =
     esp_timer_start_periodic pixelDuration
       (s\<lparr>currentSegment := SEG_BY, currentRowOdd := oddRow, currentRowEven := evenRow,
          pixelCounter := 0, rowFinished := False\<rparr>)"

definition transmitLineY_HW :: "canvas \<Rightarrow> int \<Rightarrow> tx_state \<Rightarrow> fault + tx_state" where
  "transmitLineY_HW cv row s = awaitRowFinished cv (beginLineY row s)"

definition transmitLineDiffRY_HW :: "canvas \<Rightarrow> int \<Rightarrow> int \<Rightarrow> tx_state \<Rightarrow> fault + tx_state" where
  "transmitLineDiffRY_HW cv oddRow evenRow s = awaitRowFinished cv (beginLineDiffRY oddRow evenRow s)"

definition transmitLineDiffBY_HW :: "canvas \<Rightarrow> int \<Rightarrow> int \<Rightarrow> tx_state \<Rightarrow> fault + tx_state" where
  "transmitLineDiffBY_HW cv oddRow evenRow s = awaitRowFinished cv (beginLineDiffBY oddRow evenRow s)"

section \<open>Calibration header\<close>

definition delayMicroseconds :: "int \<Rightarrow> tx_state \<Rightarrow> tx_state" where
  "delayMicroseconds us s = emit (Hold us) s"

definition tonePulse :: "int \<Rightarrow> int \<Rightarrow> tx_state \<Rightarrow> tx_state" where
  "tonePulse frequency durationMicros s = delayMicroseconds durationMicros (ledcWriteTone frequency s)"

definition transmitCalibrationHeader :: "tx_state \<Rightarrow> tx_state" where
  "transmitCalibrationHeader =
     tonePulse 1200 30000 \<circ>
     tonePulse 1300 30000 \<circ>
     tonePulse 1100 30000 \<circ>
     tonePulse 1300 30000 \<circ>
     tonePulse 1100 30000 \<circ>
     tonePulse 1100 30000 \<circ>
     tonePulse 1100 30000 \<circ>
     tonePulse 1100 30000 \<circ>
     tonePulse 1100 30000 \<circ>
     tonePulse 1200 30000 \<circ>
     tonePulse 1900 300000 \<circ>
     tonePulse 1200 10000 \<circ>
     tonePulse 1900 300000"

section \<open>Image transmission\<close>

text \<open>
  \<^verbatim>\<open>uint32_t start = micros(); while ((micros() - start) < d) { }\<close> holds the current
  tone until \<open>d\<close> microseconds have passed.
\<close>

definition waitMicros :: "int \<Rightarrow> tx_state \<Rightarrow> tx_state" where
  "waitMicros d s = emit (Hold d) s"

function linePairs :: "canvas \<Rightarrow> int \<Rightarrow> int \<Rightarrow> tx_state \<Rightarrow> fault + tx_state" where
  "linePairs cv numPairs pair s =
     (if pair < numPairs then
        (let oddLine = pair * 2;
             evenLine = oddLine + 1;
             s1 = waitMicros syncPulseDuration (ledcWriteTone 1200 s);
             s2 = waitMicros porchDuration (ledcWriteTone 1500 s1)
         in bind_fault (transmitLineY_HW cv oddLine s2) (\<lambda>s3.
            bind_fault (transmitLineDiffRY_HW cv oddLine evenLine s3) (\<lambda>s4.
            bind_fault (transmitLineDiffBY_HW cv oddLine evenLine s4) (\<lambda>s5.
            bind_fault (transmitLineY_HW cv evenLine s5) (\<lambda>s6.
            linePairs cv numPairs (pair + 1) s6)))))
      else Inr s)"
  by pat_completeness auto
termination
  by (relation "measure (\<lambda>(cv, numPairs, pair, s). nat (numPairs - pair))") auto

declare linePairs.simps [simp del]

definition ledc_stop :: "tx_state \<Rightarrow> tx_state" where
  "ledc_stop s = emit LedcStop s"

definition transmitPD120Image_HW :: "canvas \<Rightarrow> tx_state \<Rightarrow> fault + tx_state" where
  "transmitPD120Image_HW cv s =
     (let numPairs = imageHeight div 2
      in bind_fault (linePairs cv numPairs 0 s) (\<lambda>s'. Inr (ledc_stop s')))"

text \<open>The globals as the program initialises them, before anything is emitted.\<close>

definition initialState :: tx_state where
  "initialState =
     \<lparr>pixelCounter = 0, rowFinished = False, currentSegment = SEG_Y, currentRow = 0,
      currentRowOdd = 0, currentRowEven = 0, emitted = [], accessed = []\<rparr>"

text \<open>A list of pulses \<open>(frequency, duration)\<close> as the events that \<open>tonePulse\<close> emits for them.\<close>

definition pulseEvents :: "(int \<times> int) list \<Rightarrow> event list" where
  "pulseEvents ps = concat (map (\<lambda>(f, d). [Tone f, Hold d]) ps)"

section \<open>What a transmission emits and reads\<close>

text \<open>
  The tone of one pixel of a segment, the events of a whole segment and of a line pair,
  and the canvas coordinates they read, written as functions of the canvas. The theorems
  below show that the program emits exactly these.
\<close>

definition pixelAt :: "canvas \<Rightarrow> int \<Rightarrow> int \<Rightarrow> int \<times> int \<times> int" where
  "pixelAt cv x y = rgb565 (cv (y * imageWidth + x))"

definition freqOf :: "fault + int \<Rightarrow> int" where
  "freqOf r = (case r of Inl e \<Rightarrow> 0 | Inr f \<Rightarrow> f)"

definition lumaTone :: "canvas \<Rightarrow> int \<Rightarrow> int \<Rightarrow> int" where
  "lumaTone cv row x =
     (case pixelAt cv x row of (R, G, B) \<Rightarrow>
      case convertToSSTV R G B of (Y, RY, BY) \<Rightarrow> freqOf (mapYToFrequency Y))"

definition diffRYTone :: "canvas \<Rightarrow> int \<Rightarrow> int \<Rightarrow> int \<Rightarrow> int" where
  "diffRYTone cv oddRow evenRow x =
     (case pixelAt cv x oddRow of (R1, G1, B1) \<Rightarrow>
      case pixelAt cv x evenRow of (R2, G2, B2) \<Rightarrow>
      case convertToSSTV R1 G1 B1 of (Y1, RY1, BY1) \<Rightarrow>
      case convertToSSTV R2 G2 B2 of (Y2, RY2, BY2) \<Rightarrow>
        freqOf (mapDiffToFrequency (averageDiff RY1 RY2)))"

definition diffBYTone :: "canvas \<Rightarrow> int \<Rightarrow> int \<Rightarrow> int \<Rightarrow> int" where
  "diffBYTone cv oddRow evenRow x =
     (case pixelAt cv x oddRow of (R1, G1, B1) \<Rightarrow>
      case pixelAt cv x evenRow of (R2, G2, B2) \<Rightarrow>
      case convertToSSTV R1 G1 B1 of (Y1, RY1, BY1) \<Rightarrow>
      case convertToSSTV R2 G2 B2 of (Y2, RY2, BY2) \<Rightarrow>
        freqOf (mapDiffToFrequency (averageDiff BY1 BY2)))"

definition scanTone :: "canvas \<Rightarrow> tx_state \<Rightarrow> int \<Rightarrow> int" where
  "scanTone cv s x =
     (case currentSegment s of
        SEG_Y \<Rightarrow> lumaTone cv (currentRow s) x
      | SEG_RY \<Rightarrow> diffRYTone cv (currentRowOdd s) (currentRowEven s) x
      | SEG_BY \<Rightarrow> diffBYTone cv (currentRowOdd s) (currentRowEven s) x)"

definition scanReads :: "tx_state \<Rightarrow> int \<Rightarrow> (int \<times> int) list" where
  "scanReads s x =
     (case currentSegment s of
        SEG_Y \<Rightarrow> [(x, currentRow s)]
      | SEG_RY \<Rightarrow> [(x, currentRowOdd s), (x, currentRowEven s)]
      | SEG_BY \<Rightarrow> [(x, currentRowOdd s), (x, currentRowEven s)])"

definition rowsValid :: "tx_state \<Rightarrow> bool" where
  "rowsValid s =
     (case currentSegment s of
        SEG_Y \<Rightarrow> 0 \<le> currentRow s \<and> currentRow s < imageHeight
      | SEG_RY \<Rightarrow> 0 \<le> currentRowOdd s \<and> currentRowOdd s < imageHeight
                 \<and> 0 \<le> currentRowEven s \<and> currentRowEven s < imageHeight
      | SEG_BY \<Rightarrow> 0 \<le> currentRowOdd s \<and> currentRowOdd s < imageHeight
                 \<and> 0 \<le> currentRowEven s \<and> currentRowEven s < imageHeight)"

text \<open>Two states that differ only in what has been emitted and read so far.\<close>

definition sameScan :: "tx_state \<Rightarrow> tx_state \<Rightarrow> bool" where
  "sameScan s s' \<longleftrightarrow>
     currentSegment s' = currentSegment s \<and> currentRow s' = currentRow s
     \<and> currentRowOdd s' = currentRowOdd s \<and> currentRowEven s' = currentRowEven s"

definition scanEvents :: "(int \<Rightarrow> int) \<Rightarrow> event list" where
  "scanEvents tone =
     TimerStart pixelDuration # map (\<lambda>x. Tone (tone x)) [0..imageWidth - 1] @ [TimerStop]"

definition linePairEvents :: "canvas \<Rightarrow> int \<Rightarrow> event list" where
  "linePairEvents cv k =
     [Tone 1200, Hold syncPulseDuration, Tone 1500, Hold porchDuration]
     @ scanEvents (lumaTone cv (k * 2))
     @ scanEvents (diffRYTone cv (k * 2) (k * 2 + 1))
     @ scanEvents (diffBYTone cv (k * 2) (k * 2 + 1))
     @ scanEvents (lumaTone cv (k * 2 + 1))"

definition rowReads :: "int \<Rightarrow> (int \<times> int) list" where
  "rowReads row = map (\<lambda>x. (x, row)) [0..imageWidth - 1]"

definition pairReads :: "int \<Rightarrow> int \<Rightarrow> (int \<times> int) list" where
  "pairReads oddRow evenRow = concat (map (\<lambda>x. [(x, oddRow), (x, evenRow)]) [0..imageWidth - 1])"

definition linePairReads :: "int \<Rightarrow> (int \<times> int) list" where
  "linePairReads k =
     rowReads (k * 2) @ pairReads (k * 2) (k * 2 + 1) @ pairReads (k * 2) (k * 2 + 1)
     @ rowReads (k * 2 + 1)"

text \<open>A coordinate pair inside the image, with its buffer index inside the buffer.\<close>

definition inSurface :: "int \<times> int \<Rightarrow> bool" where
  "inSurface p \<longleftrightarrow>
     0 \<le> fst p \<and> fst p < imageWidth \<and> 0 \<le> snd p \<and> snd p < imageHeight
     \<and> 0 \<le> snd p * imageWidth + fst p \<and> snd p * imageWidth + fst p < imageWidth * imageHeight"

section \<open>Properties of the rounding\<close>

lemma rne_error: "\<bar>of_int (rne q) - q\<bar> \<le> 1 / 2"
proof -
  define r where "r = q - of_int \<lfloor>q\<rfloor>"
  have r: "0 \<le> r" "r < 1" unfolding r_def by linarith+
  have q: "q = of_int \<lfloor>q\<rfloor> + r" unfolding r_def by simp
  consider "r < 1 / 2" | "1 / 2 < r" | "r = 1 / 2" by linarith
  then show ?thesis
  proof cases
    case 1
    then have "rne q = \<lfloor>q\<rfloor>" unfolding rne_def Let_def r_def by simp
    then show ?thesis using 1 r q by linarith
  next
    case 2
    then have "rne q = \<lfloor>q\<rfloor> + 1" unfolding rne_def Let_def r_def by simp
    then have "of_int (rne q) = of_int \<lfloor>q\<rfloor> + (1::rat)" by simp
    then show ?thesis using 2 r q by linarith
  next
    case 3
    then have "rne q = \<lfloor>q\<rfloor> \<or> rne q = \<lfloor>q\<rfloor> + 1"
      unfolding rne_def Let_def r_def by simp
    then have "of_int (rne q) = (of_int \<lfloor>q\<rfloor> :: rat) \<or> of_int (rne q) = of_int \<lfloor>q\<rfloor> + (1::rat)"
      by auto
    then show ?thesis using 3 r q by auto
  qed
qed

lemma rne_mono: "q \<le> q' \<Longrightarrow> rne q \<le> rne q'"
proof -
  assume le: "q \<le> q'"
  have fl: "\<lfloor>q\<rfloor> \<le> \<lfloor>q'\<rfloor>" using le by (rule floor_mono)
  show ?thesis
  proof (cases "\<lfloor>q\<rfloor> = \<lfloor>q'\<rfloor>")
    case True
    then show ?thesis using le unfolding rne_def Let_def by auto
  next
    case False
    then have lt: "\<lfloor>q\<rfloor> + 1 \<le> \<lfloor>q'\<rfloor>" using fl by linarith
    have a: "rne q \<le> \<lfloor>q\<rfloor> + 1" unfolding rne_def Let_def by auto
    have b: "\<lfloor>q'\<rfloor> \<le> rne q'" unfolding rne_def Let_def by auto
    show ?thesis using a b lt by linarith
  qed
qed

lemma rne_of_int_add: "\<bar>t\<bar> < 1 / 2 \<Longrightarrow> rne (of_int k + t) = k"
proof -
  assume t: "\<bar>t\<bar> < 1 / 2"
  have e: "\<bar>of_int (rne (of_int k + t)) - (of_int k + t)\<bar> \<le> 1 / 2" by (rule rne_error)
  have "\<bar>(of_int (rne (of_int k + t)) :: rat) - of_int k\<bar> < 1" using e t by linarith
  then have "\<bar>of_int (rne (of_int k + t) - k) :: rat\<bar> < 1" by simp
  then have "\<bar>rne (of_int k + t) - k\<bar> < 1"
    by (metis of_int_abs of_int_less_1_iff)
  then show ?thesis by linarith
qed

lemma rne_of_int [simp]: "rne (of_int k) = k"
  using rne_of_int_add [of 0 k] by simp

lemma powi_neg: "0 \<le> k \<Longrightarrow> (2::rat) powi (- k) = 1 / 2 ^ nat k"
  by (simp add: power_int_minus_divide power_int_nonneg_exp)

lemma powi_nonneg: "0 \<le> k \<Longrightarrow> (2::rat) powi k = 2 ^ nat k"
  by (simp add: power_int_nonneg_exp)

lemma powi_less_cancel: "(2::rat) powi a < 2 powi b \<Longrightarrow> a < b"
proof (rule ccontr)
  assume lt: "(2::rat) powi a < 2 powi b" and "\<not> a < b"
  then have "b \<le> a" by simp
  then have "(2::rat) powi b \<le> 2 powi a" by (intro power_int_increasing) simp_all
  then show False using lt by simp
qed

lemma powi_pos [simp]: "0 < (2::rat) powi a"
  by (simp add: zero_less_power_int)

lemma ilog2_lower:
  assumes "0 < x"
  shows "2 powi (ilog2 x) \<le> x"
proof (cases "1 \<le> x")
  case True
  then have n: "0 < \<lfloor>x\<rfloor>" by linarith
  from bitlen_bounds [OF n] have "2 ^ nat (bitlen \<lfloor>x\<rfloor> - 1) \<le> \<lfloor>x\<rfloor>" by simp
  then have "(2::rat) ^ nat (bitlen \<lfloor>x\<rfloor> - 1) \<le> of_int \<lfloor>x\<rfloor>"
    by (metis of_int_le_iff of_int_numeral of_int_power)
  moreover have "of_int \<lfloor>x\<rfloor> \<le> x" by (rule of_int_floor_le)
  ultimately have "(2::rat) ^ nat (bitlen \<lfloor>x\<rfloor> - 1) \<le> x" by linarith
  moreover have "1 \<le> bitlen \<lfloor>x\<rfloor>" using n by (simp add: bitlen_alt_def)
  ultimately show ?thesis using True
    by (simp add: ilog2_def powi_nonneg)
next
  case False
  define y where "y = 1 / x"
  define m where "m = \<lceil>y\<rceil>"
  have y1: "1 < y" using False assms by (simp add: y_def)
  have m2: "0 < m - 1" using y1 unfolding m_def by linarith
  from bitlen_bounds [OF m2] have "m - 1 < 2 ^ nat (bitlen (m - 1))" by simp
  then have "m \<le> 2 ^ nat (bitlen (m - 1))" by linarith
  then have "(of_int m :: rat) \<le> 2 ^ nat (bitlen (m - 1))"
    by (metis of_int_le_iff of_int_numeral of_int_power)
  moreover have "y \<le> of_int m" unfolding m_def by linarith
  ultimately have "y \<le> 2 ^ nat (bitlen (m - 1))" by linarith
  then have "1 / 2 ^ nat (bitlen (m - 1)) \<le> x"
    using assms unfolding y_def by (simp add: field_simps)
  moreover have "0 \<le> bitlen (m - 1)" by (rule bitlen_nonneg)
  moreover have "ilog2 x = - bitlen (m - 1)" using False by (simp add: ilog2_def m_def y_def)
  ultimately show ?thesis by (simp add: powi_neg)
qed

lemma ilog2_upper:
  assumes "0 < x"
  shows "x < 2 powi (ilog2 x + 1)"
proof (cases "1 \<le> x")
  case True
  then have n: "0 < \<lfloor>x\<rfloor>" by linarith
  from bitlen_bounds [OF n] have "\<lfloor>x\<rfloor> < 2 ^ nat (bitlen \<lfloor>x\<rfloor>)" by simp
  then have "\<lfloor>x\<rfloor> + 1 \<le> 2 ^ nat (bitlen \<lfloor>x\<rfloor>)" by linarith
  then have "(of_int (\<lfloor>x\<rfloor> + 1) :: rat) \<le> 2 ^ nat (bitlen \<lfloor>x\<rfloor>)"
    by (metis of_int_le_iff of_int_numeral of_int_power)
  moreover have "x < of_int (\<lfloor>x\<rfloor> + 1)" by linarith
  moreover have "0 \<le> bitlen \<lfloor>x\<rfloor>" by (rule bitlen_nonneg)
  ultimately show ?thesis using True
    by (simp add: ilog2_def powi_nonneg)
next
  case False
  define y where "y = 1 / x"
  define m where "m = \<lceil>y\<rceil>"
  define k where "k = bitlen (m - 1)"
  have y1: "1 < y" using False assms by (simp add: y_def)
  have m2: "0 < m - 1" using y1 unfolding m_def by linarith
  have k1: "1 \<le> k" using m2 unfolding k_def by (simp add: bitlen_alt_def)
  from bitlen_bounds [OF m2] have "2 ^ nat (k - 1) \<le> m - 1" unfolding k_def by simp
  then have "(2::rat) ^ nat (k - 1) \<le> of_int (m - 1)"
    by (metis of_int_le_iff of_int_numeral of_int_power)
  moreover have "of_int (m - 1) < y" unfolding m_def by linarith
  ultimately have "2 ^ nat (k - 1) < y" by linarith
  then have "x < 1 / 2 ^ nat (k - 1)"
    using assms unfolding y_def by (simp add: field_simps)
  moreover have "ilog2 x + 1 = - (k - 1)" using False by (simp add: ilog2_def k_def m_def y_def)
  moreover have "(2::rat) powi (- (k - 1)) = 1 / 2 ^ nat (k - 1)"
    using k1 by (intro powi_neg) simp
  ultimately show ?thesis by simp
qed

lemma ilog2_unique:
  assumes "2 powi e \<le> x" "x < 2 powi (e + 1)"
  shows "ilog2 x = e"
proof -
  have pos: "0 < x" using assms(1) by (rule order_less_le_trans [OF powi_pos])
  have a: "(2::rat) powi (ilog2 x) < 2 powi (e + 1)"
    using ilog2_lower [OF pos] assms(2) by linarith
  have b: "(2::rat) powi e < 2 powi (ilog2 x + 1)"
    using ilog2_upper [OF pos] assms(1) by linarith
  have "ilog2 x < e + 1" using a by (rule powi_less_cancel)
  moreover have "e < ilog2 x + 1" using b by (rule powi_less_cancel)
  ultimately show ?thesis by linarith
qed

lemma ilog2_mono:
  assumes "0 < x" "x \<le> y"
  shows "ilog2 x \<le> ilog2 y"
proof -
  have "(2::rat) powi (ilog2 x) < 2 powi (ilog2 y + 1)"
    using ilog2_lower [OF assms(1)] ilog2_upper [of y] assms by linarith
  then have "ilog2 x < ilog2 y + 1" by (rule powi_less_cancel)
  then show ?thesis by linarith
qed

lemma ilog2_less:
  assumes "0 < x" "x < 2 powi k"
  shows "ilog2 x < k"
proof -
  have "(2::rat) powi (ilog2 x) < 2 powi k"
    using ilog2_lower [OF assms(1)] assms(2) by linarith
  then show ?thesis by (rule powi_less_cancel)
qed

lemma ilog2_ge:
  assumes "2 powi k \<le> x"
  shows "k \<le> ilog2 x"
proof -
  have pos: "0 < x" using assms by (rule order_less_le_trans [OF powi_pos])
  have "(2::rat) powi k < 2 powi (ilog2 x + 1)"
    using ilog2_upper [OF pos] assms by linarith
  then have "k < ilog2 x + 1" by (rule powi_less_cancel)
  then show ?thesis by linarith
qed



lemma round_fp_zero [simp]: "round_fp p emin 0 = 0"
  by (simp add: round_fp_def)

lemma round_fp_minus: "round_fp p emin (- x) = - round_fp p emin x"
  by (simp add: round_fp_def Let_def)

lemma round_fp_pos:
  "0 < x \<Longrightarrow> round_fp p emin x =
     of_int (rne (x / 2 powi (max (ilog2 x) emin - int p + 1))) * 2 powi (max (ilog2 x) emin - int p + 1)"
  by (simp add: round_fp_def Let_def)

lemma rne_nonneg: "0 \<le> q \<Longrightarrow> 0 \<le> rne q"
  using rne_mono [of 0 q] rne_of_int [of 0] by simp

lemma round_fp_nonneg: "0 \<le> x \<Longrightarrow> 0 \<le> round_fp p emin x"
proof (cases "x = 0")
  case True
  then show ?thesis by simp
next
  case False
  assume "0 \<le> x"
  with False have pos: "0 < x" by simp
  have "0 \<le> rne (x / 2 powi (max (ilog2 x) emin - int p + 1))"
    using pos by (intro rne_nonneg) simp
  then show ?thesis unfolding round_fp_pos [OF pos] by simp
qed

lemma powi_split: "(2::rat) powi (a + b) = 2 powi a * 2 powi b"
  by (simp add: power_int_add)

lemma powi_diff: "(2::rat) powi (a - b) = 2 powi a / 2 powi b"
  by (simp add: power_int_diff)

lemma powi_mult_eq: "a + b = c \<Longrightarrow> (2::rat) powi a * 2 powi b = 2 powi c"
  using powi_split [of a b] by simp

lemma pow_powi_mult_eq: "int n + b = c \<Longrightarrow> (of_int (2 ^ n) :: rat) * 2 powi b = 2 powi c"
  using powi_mult_eq [of "int n" b c] by simp

lemma powi_div_eq: "a - b = int n \<Longrightarrow> (2::rat) powi a / 2 powi b = of_int (2 ^ n)"
  using powi_diff [of a b] by simp

lemma round_fp_pos_upper:
  assumes pos: "0 < x"
  shows "round_fp p emin x \<le> 2 powi (max (ilog2 x) emin + 1)"
proof -
  define E where "E = max (ilog2 x) emin"
  define u :: rat where "u = 2 powi (E - int p + 1)"
  have u: "0 < u" unfolding u_def by simp
  have "x < 2 powi (ilog2 x + 1)" by (rule ilog2_upper [OF pos])
  also have "\<dots> \<le> 2 powi (E + 1)" unfolding E_def by (intro power_int_increasing) simp_all
  finally have "x < 2 powi (E + 1)" .
  then have "x / u < 2 powi (E + 1) / u" using u by (simp add: divide_strict_right_mono)
  also have "2 powi (E + 1) / u = of_int (2 ^ p)" unfolding u_def
    by (rule powi_div_eq) simp
  finally have "x / u \<le> of_int (2 ^ p)" by simp
  then have "rne (x / u) \<le> rne (of_int (2 ^ p))" by (rule rne_mono)
  then have "rne (x / u) \<le> 2 ^ p" by (simp only: rne_of_int)
  then have "(of_int (rne (x / u)) :: rat) \<le> of_int (2 ^ p)" by (simp only: of_int_le_iff)
  then have "of_int (rne (x / u)) * u \<le> of_int (2 ^ p) * u"
    using u by (simp only: mult_le_cancel_right_pos)
  also have "of_int (2 ^ p) * u = 2 powi (E + 1)" unfolding u_def
    by (rule pow_powi_mult_eq) simp
  finally show ?thesis unfolding round_fp_pos [OF pos] E_def u_def .
qed

lemma round_fp_pos_lower:
  assumes pos: "0 < x" and p: "0 < p" and e: "emin \<le> ilog2 x"
  shows "2 powi (ilog2 x) \<le> round_fp p emin x"
proof -
  define E where "E = ilog2 x"
  define u :: rat where "u = 2 powi (E - int p + 1)"
  have u: "0 < u" unfolding u_def by simp
  have mx: "max (ilog2 x) emin = E" using e unfolding E_def by simp
  have "2 powi E \<le> x" unfolding E_def by (rule ilog2_lower [OF pos])
  then have "2 powi E / u \<le> x / u" using u by (simp add: divide_right_mono)
  moreover have "2 powi E / u = of_int (2 ^ (p - 1))" unfolding u_def
    by (rule powi_div_eq) (use p in linarith)
  ultimately have "of_int (2 ^ (p - 1)) \<le> x / u" by simp
  then have "rne (of_int (2 ^ (p - 1))) \<le> rne (x / u)" by (rule rne_mono)
  then have "2 ^ (p - 1) \<le> rne (x / u)" by (simp only: rne_of_int)
  then have "(of_int (2 ^ (p - 1)) :: rat) \<le> of_int (rne (x / u))" by (simp only: of_int_le_iff)
  then have "of_int (2 ^ (p - 1)) * u \<le> of_int (rne (x / u)) * u"
    using u by (simp only: mult_le_cancel_right_pos)
  moreover have "of_int (2 ^ (p - 1)) * u = 2 powi E" unfolding u_def
    by (rule pow_powi_mult_eq) (use p in linarith)
  ultimately have "2 powi E \<le> of_int (rne (x / u)) * u" by linarith
  then show ?thesis unfolding round_fp_pos [OF pos] mx u_def E_def .
qed

lemma round_fp_mono_pos:
  assumes pos: "0 < x" and le: "x \<le> y" and p: "0 < p"
  shows "round_fp p emin x \<le> round_fp p emin y"
proof -
  have posy: "0 < y" using pos le by simp
  have il: "ilog2 x \<le> ilog2 y" by (rule ilog2_mono [OF pos le])
  show ?thesis
  proof (cases "max (ilog2 x) emin = max (ilog2 y) emin")
    case True
    define u :: rat where "u = 2 powi (max (ilog2 y) emin - int p + 1)"
    have u: "0 < u" unfolding u_def by simp
    have "x / u \<le> y / u" using le u by (simp add: divide_right_mono)
    then have "rne (x / u) \<le> rne (y / u)" by (rule rne_mono)
    then have "(of_int (rne (x / u)) :: rat) \<le> of_int (rne (y / u))" by simp
    then have "of_int (rne (x / u)) * u \<le> of_int (rne (y / u)) * u"
      using u by (simp only: mult_le_cancel_right_pos)
    then show ?thesis unfolding round_fp_pos [OF pos] round_fp_pos [OF posy] True u_def .
  next
    case False
    then have lt: "max (ilog2 x) emin + 1 \<le> ilog2 y" and e: "emin \<le> ilog2 y"
      using il by (auto simp: max_def split: if_splits)
    have "round_fp p emin x \<le> 2 powi (max (ilog2 x) emin + 1)"
      by (rule round_fp_pos_upper [OF pos])
    also have "\<dots> \<le> 2 powi (ilog2 y)" using lt by (intro power_int_increasing) simp_all
    also have "\<dots> \<le> round_fp p emin y" by (rule round_fp_pos_lower [OF posy p e])
    finally show ?thesis .
  qed
qed

lemma round_fp_mono:
  assumes le: "x \<le> y" and p: "0 < p"
  shows "round_fp p emin x \<le> round_fp p emin y"
proof -
  consider "0 < x" | "x \<le> 0" "0 \<le> y" | "y < 0" by linarith
  then show ?thesis
  proof cases
    case 1
    then show ?thesis using le p by (intro round_fp_mono_pos)
  next
    case 2
    have "round_fp p emin x \<le> 0"
      using round_fp_nonneg [of "- x" p emin] 2(1) by (simp add: round_fp_minus)
    moreover have "0 \<le> round_fp p emin y" using 2(2) by (rule round_fp_nonneg)
    ultimately show ?thesis by linarith
  next
    case 3
    then have "0 < - y" "- y \<le> - x" using le by simp_all
    then have "round_fp p emin (- y) \<le> round_fp p emin (- x)" using p by (intro round_fp_mono_pos)
    then show ?thesis by (simp add: round_fp_minus)
  qed
qed


lemma round_fp_error_pos:
  assumes pos: "0 < x" and lt: "x < 2 powi k" and e: "emin < k"
  shows "\<bar>round_fp p emin x - x\<bar> \<le> 2 powi (k - 1 - int p)"
proof -
  define E where "E = max (ilog2 x) emin"
  define u :: rat where "u = 2 powi (E - int p + 1)"
  have u: "0 < u" unfolding u_def by simp
  have "ilog2 x < k" by (rule ilog2_less [OF pos lt])
  then have Ek: "E \<le> k - 1" using e unfolding E_def by simp
  have "\<bar>of_int (rne (x / u)) - x / u\<bar> \<le> 1 / 2" by (rule rne_error)
  then have "\<bar>of_int (rne (x / u)) - x / u\<bar> * u \<le> 1 / 2 * u"
    using u by (simp only: mult_le_cancel_right_pos)
  moreover have "\<bar>of_int (rne (x / u)) - x / u\<bar> * u = \<bar>of_int (rne (x / u)) * u - x\<bar>"
  proof -
    have "\<bar>of_int (rne (x / u)) - x / u\<bar> * u = \<bar>(of_int (rne (x / u)) - x / u) * u\<bar>"
      using u by (simp add: abs_mult)
    also have "(of_int (rne (x / u)) - x / u) * u = of_int (rne (x / u)) * u - x"
      using u by (simp add: field_simps)
    finally show ?thesis .
  qed
  moreover have "1 / 2 * u = 2 powi (E - int p)"
  proof -
    have "2 powi (E - int p) * (2::rat) powi 1 = 2 powi (E - int p + 1)"
      by (rule powi_mult_eq) simp
    then show ?thesis unfolding u_def by simp
  qed
  moreover have "(2::rat) powi (E - int p) \<le> 2 powi (k - 1 - int p)"
    using Ek by (intro power_int_increasing) simp_all
  ultimately have "\<bar>of_int (rne (x / u)) * u - x\<bar> \<le> 2 powi (k - 1 - int p)" by linarith
  then show ?thesis unfolding round_fp_pos [OF pos] E_def u_def .
qed

lemma round_fp_error:
  assumes lt: "\<bar>x\<bar> < 2 powi k" and e: "emin < k"
  shows "\<bar>round_fp p emin x - x\<bar> \<le> 2 powi (k - 1 - int p)"
proof -
  consider "x = 0" | "0 < x" | "x < 0" by linarith
  then show ?thesis
  proof cases
    case 1
    then show ?thesis by (simp add: less_imp_le)
  next
    case 2
    then show ?thesis using lt e by (intro round_fp_error_pos) simp_all
  next
    case 3
    then have "0 < - x" "- x < 2 powi k" using lt by simp_all
    then have "\<bar>round_fp p emin (- x) - (- x)\<bar> \<le> 2 powi (k - 1 - int p)"
      using e by (intro round_fp_error_pos)
    moreover have "\<bar>round_fp p emin (- x) - (- x)\<bar> = \<bar>round_fp p emin x - x\<bar>"
      unfolding round_fp_minus by (simp add: abs_minus_commute)
    ultimately show ?thesis by simp
  qed
qed

lemma round_fp_near_int:
  assumes n: "1 \<le> n" and lt: "of_int n + t < 2 powi (int p)"
    and t: "\<bar>t\<bar> < 2 powi (- int p - 1)" and e: "emin \<le> - 1" and p: "0 < p"
  shows "round_fp p emin (of_int n + t) = of_int n"
proof -
  define x where "x = of_int n + t"
  define E where "E = ilog2 x"
  have "(2::rat) powi (- int p - 1) \<le> 2 powi (- 1)" using p by (intro power_int_increasing) simp_all
  then have t2: "\<bar>t\<bar> < 1 / 2" using t by simp
  have "(1::rat) \<le> of_int n" using n by simp
  then have half: "2 powi (- 1) \<le> x" using t2 unfolding x_def by simp
  then have pos: "0 < x" by (rule order_less_le_trans [OF powi_pos])
  have E1: "- 1 \<le> E" unfolding E_def by (rule ilog2_ge [OF half])
  have E2: "E < int p" unfolding E_def using lt by (intro ilog2_less [OF pos]) (simp add: x_def)
  have mx: "max (ilog2 x) emin = E" using E1 e unfolding E_def by simp
  define m where "m = nat (int p - 1 - E)"
  have m: "int m = int p - 1 - E" unfolding m_def using E2 by simp
  have mp: "m \<le> p" using E1 m by linarith
  define u :: rat where "u = 2 powi (E - int p + 1)"
  have u: "0 < u" unfolding u_def by simp
  have iu: "1 / u = of_int (2 ^ m)"
  proof -
    have "(2::rat) powi 0 / 2 powi (E - int p + 1) = of_int (2 ^ m)"
      by (rule powi_div_eq) (use m in simp)
    then show ?thesis unfolding u_def by simp
  qed
  have "x / u = x * (1 / u)" by simp
  also have "\<dots> = of_int (n * 2 ^ m) + t * of_int (2 ^ m)"
    unfolding iu x_def by (simp add: algebra_simps)
  finally have xu: "x / u = of_int (n * 2 ^ m) + t * of_int (2 ^ m)" .
  have "\<bar>t * of_int (2 ^ m)\<bar> = \<bar>t\<bar> * 2 ^ m" by (simp add: abs_mult)
  also have "\<dots> \<le> \<bar>t\<bar> * 2 ^ p" using mp by (intro mult_left_mono) simp_all
  also have "\<dots> < 2 powi (- int p - 1) * 2 ^ p" using t by (intro mult_strict_right_mono) simp_all
  also have "2 powi (- int p - 1) * (2::rat) ^ p = 2 powi (- 1)"
    using powi_mult_eq [of "- int p - 1" "int p" "- 1"] by simp
  finally have small: "\<bar>t * of_int (2 ^ m)\<bar> < 1 / 2" by simp
  have "rne (x / u) = n * 2 ^ m" unfolding xu by (rule rne_of_int_add [OF small])
  then have "of_int (rne (x / u)) * u = of_int n * (of_int (2 ^ m) * u)" by simp
  also have "of_int (2 ^ m) * u = 1" using iu u by (simp add: field_simps)
  finally have r: "of_int (rne (x / u)) * u = of_int n" by simp
  have "round_fp p emin x = of_int (rne (x / u)) * u"
    unfolding round_fp_pos [OF pos] mx u_def by (rule refl)
  then show ?thesis using r unfolding x_def by simp
qed


section \<open>Evaluating and bounding the floating-point operations\<close>

lemma bitlen_numeral_simps:
  "bitlen 1 = 1"
  "bitlen (numeral Num.One) = 1"
  "bitlen (numeral (Num.Bit0 n)) = bitlen (numeral n) + 1"
  "bitlen (numeral (Num.Bit1 n)) = bitlen (numeral n) + 1"
  by (subst compute_bitlen, simp)+

lemma floor_rat_numeral:
  "\<lfloor>numeral a / numeral b :: rat\<rfloor> = numeral a div numeral b"
  using floor_divide_of_int_eq [of "numeral a" "numeral b", where ?'a = rat] by simp

lemma ceiling_rat_numeral:
  "\<lceil>numeral a / numeral b :: rat\<rceil> = - ((- numeral a) div numeral b)"
  using floor_divide_of_int_eq [of "- numeral a" "numeral b", where ?'a = rat]
  by (simp add: ceiling_def)

lemmas fp_eval = to_float_def to_double_def round_fp_def ilog2_def rne_def Let_def
  dadd_def dmul_def ddiv_def fadd_def fsub_def dlit_def bitlen_numeral_simps
  floor_rat_numeral ceiling_rat_numeral

lemma dlit_299: "dlit (299 / 1000) = 5386305154335113 / 2 ^ 54"
  by (simp add: fp_eval)
lemma dlit_587: "dlit (587 / 1000) = 2643612981266481 / 2 ^ 52"
  by (simp add: fp_eval)
lemma dlit_114: "dlit (114 / 1000) = 8214565720323785 / 2 ^ 56"
  by (simp add: fp_eval)
lemma dlit_713: "dlit (713 / 1000) = 6422133068630327 / 2 ^ 53"
  by (simp add: fp_eval)
lemma dlit_564: "dlit (564 / 1000) = 5080060379673919 / 2 ^ 53"
  by (simp add: fp_eval)

lemma to_double_mono: "x \<le> y \<Longrightarrow> to_double x \<le> to_double y"
  unfolding to_double_def by (rule round_fp_mono) simp_all

lemma to_float_mono: "x \<le> y \<Longrightarrow> to_float x \<le> to_float y"
  unfolding to_float_def by (rule round_fp_mono) simp_all

lemma to_double_zero [simp]: "to_double 0 = 0" by (simp add: to_double_def)
lemma to_float_zero [simp]: "to_float 0 = 0" by (simp add: to_float_def)

lemma to_double_nonneg: "0 \<le> x \<Longrightarrow> 0 \<le> to_double x"
  using to_double_mono [of 0 x] by simp

lemma to_float_nonneg: "0 \<le> x \<Longrightarrow> 0 \<le> to_float x"
  using to_float_mono [of 0 x] by simp

text \<open>Error of one rounding, for operands below a power of two.\<close>

lemma to_double_error: "\<bar>x\<bar> < 2 powi k \<Longrightarrow> - 1022 < k \<Longrightarrow> \<bar>to_double x - x\<bar> \<le> 2 powi (k - 54)"
  using round_fp_error [of x k "- 1022" 53] by (simp add: to_double_def)

lemma to_float_error: "\<bar>x\<bar> < 2 powi k \<Longrightarrow> - 126 < k \<Longrightarrow> \<bar>to_float x - x\<bar> \<le> 2 powi (k - 25)"
  using round_fp_error [of x k "- 126" 24] by (simp add: to_float_def)

lemma to_double_error_256: "\<bar>x\<bar> < 256 \<Longrightarrow> \<bar>to_double x - x\<bar> \<le> 1 / 2 ^ 46"
  using to_double_error [of x 8] by simp

lemma to_float_error_256: "\<bar>x\<bar> < 256 \<Longrightarrow> \<bar>to_float x - x\<bar> \<le> 1 / 2 ^ 17"
  using to_float_error [of x 8] by simp

lemma to_float_near_int:
  "1 \<le> n \<Longrightarrow> n \<le> 255 \<Longrightarrow> \<bar>t\<bar> < 1 / 2 ^ 25 \<Longrightarrow> to_float (of_int n + t) = of_int n"
proof -
  assume n: "1 \<le> n" "n \<le> 255" and t: "\<bar>t\<bar> < 1 / 2 ^ 25"
  have "(of_int n :: rat) \<le> 255" using n by simp
  then have "of_int n + t < 2 powi (int 24)" using t by simp
  moreover have "\<bar>t\<bar> < 2 powi (- int 24 - 1)" using t by simp
  ultimately show ?thesis unfolding to_float_def using n(1)
    by (intro round_fp_near_int) simp_all
qed

section \<open>Luminance\<close>

lemma lumaOf_mono:
  assumes "R \<le> R'" "G \<le> G'" "B \<le> B'"
  shows "lumaOf R G B \<le> lumaOf R' G' B'"
  unfolding lumaOf_def dadd_def dmul_def dlit_299 dlit_587 dlit_114
  using assms
  by (intro to_float_mono to_double_mono add_mono mult_left_mono) simp_all

lemma lumaOf_zero: "lumaOf 0 0 0 = 0"
  by (simp add: lumaOf_def dadd_def dmul_def)

text \<open>The double-precision sum of products, before it is stored in the float.\<close>

lemma luma_sum_error:
  fixes r g b :: rat
  assumes "0 \<le> r" "r \<le> 255" "0 \<le> g" "g \<le> 255" "0 \<le> b" "b \<le> 255"
  shows "\<bar>dadd (dadd (dmul (dlit (299 / 1000)) r) (dmul (dlit (587 / 1000)) g))
               (dmul (dlit (114 / 1000)) b)
          - (5386305154335113 / 2 ^ 54 * r + 2643612981266481 / 2 ^ 52 * g
             + 8214565720323785 / 2 ^ 56 * b)\<bar> \<le> 5 / 2 ^ 46"
proof -
  define a where "a = to_double (5386305154335113 / 2 ^ 54 * r)"
  define c where "c = to_double (2643612981266481 / 2 ^ 52 * g)"
  define d where "d = to_double (8214565720323785 / 2 ^ 56 * b)"
  define s1 where "s1 = to_double (a + c)"
  define s2 where "s2 = to_double (s1 + d)"
  have ea: "\<bar>a - 5386305154335113 / 2 ^ 54 * r\<bar> \<le> 1 / 2 ^ 46"
    unfolding a_def using assms by (intro to_double_error_256) simp
  have ec: "\<bar>c - 2643612981266481 / 2 ^ 52 * g\<bar> \<le> 1 / 2 ^ 46"
    unfolding c_def using assms by (intro to_double_error_256) simp
  have ed: "\<bar>d - 8214565720323785 / 2 ^ 56 * b\<bar> \<le> 1 / 2 ^ 46"
    unfolding d_def using assms by (intro to_double_error_256) simp
  have "\<bar>a + c\<bar> < 256" using ea ec assms unfolding abs_le_iff abs_less_iff by (simp add: field_simps)
  then have e1: "\<bar>s1 - (a + c)\<bar> \<le> 1 / 2 ^ 46" unfolding s1_def by (rule to_double_error_256)
  have "\<bar>s1 + d\<bar> < 256" using e1 ea ec ed assms unfolding abs_le_iff abs_less_iff by (simp add: field_simps)
  then have e2: "\<bar>s2 - (s1 + d)\<bar> \<le> 1 / 2 ^ 46" unfolding s2_def by (rule to_double_error_256)
  have "\<bar>s2 - (5386305154335113 / 2 ^ 54 * r + 2643612981266481 / 2 ^ 52 * g
             + 8214565720323785 / 2 ^ 56 * b)\<bar> \<le> 5 / 2 ^ 46"
    using ea ec ed e1 e2 unfolding abs_le_iff abs_less_iff by (simp add: field_simps)
  then show ?thesis
    unfolding s2_def s1_def a_def c_def d_def dadd_def dmul_def dlit_299 dlit_587 dlit_114 .
qed

lemma lumaOf_gray:
  assumes "0 \<le> c" "c \<le> 255"
  shows "lumaOf c c c = of_int c"
proof (cases "c = 0")
  case True
  then show ?thesis by (simp add: lumaOf_zero)
next
  case False
  then have c1: "1 \<le> c" using assms by simp
  define x :: rat where "x = of_int c"
  have x: "1 \<le> x" "x \<le> 255" unfolding x_def using c1 assms by simp_all
  define S where "S = dadd (dadd (dmul (dlit (299 / 1000)) x) (dmul (dlit (587 / 1000)) x))
               (dmul (dlit (114 / 1000)) x)"
  have "\<bar>S - (5386305154335113 / 2 ^ 54 * x + 2643612981266481 / 2 ^ 52 * x
             + 8214565720323785 / 2 ^ 56 * x)\<bar> \<le> 5 / 2 ^ 46"
    unfolding S_def using x by (intro luma_sum_error) simp_all
  then have t: "\<bar>S - x\<bar> < 1 / 2 ^ 25" using x unfolding abs_le_iff abs_less_iff by (simp add: field_simps)
  have "to_float (of_int c + (S - x)) = of_int c"
    using c1 assms(2) t by (rule to_float_near_int)
  then have "to_float S = of_int c" by (simp add: x_def)
  then show ?thesis unfolding lumaOf_def S_def x_def .
qed

lemma lumaOf_range:
  assumes "0 \<le> R" "R \<le> 255" "0 \<le> G" "G \<le> 255" "0 \<le> B" "B \<le> 255"
  shows "0 \<le> lumaOf R G B" and "lumaOf R G B \<le> 255"
proof -
  have "lumaOf 0 0 0 \<le> lumaOf R G B" using assms by (intro lumaOf_mono) simp_all
  then show "0 \<le> lumaOf R G B" by (simp add: lumaOf_zero)
  have "lumaOf R G B \<le> lumaOf 255 255 255" using assms by (intro lumaOf_mono) simp_all
  then show "lumaOf R G B \<le> 255" using lumaOf_gray [of 255] by simp
qed

lemma lumaOf_le_max:
  assumes "0 \<le> R" "R \<le> 255" "0 \<le> G" "G \<le> 255" "0 \<le> B" "B \<le> 255"
  shows "lumaOf R G B \<le> of_int (max R (max G B))"
proof -
  define m where "m = max R (max G B)"
  have m: "0 \<le> m" "m \<le> 255" "R \<le> m" "G \<le> m" "B \<le> m" unfolding m_def using assms by simp_all
  have "lumaOf R G B \<le> lumaOf m m m" using m by (intro lumaOf_mono) simp_all
  then show ?thesis using lumaOf_gray [OF m(1,2)] unfolding m_def by simp
qed

lemma lumaOf_error:
  assumes "0 \<le> R" "R \<le> 255" "0 \<le> G" "G \<le> 255" "0 \<le> B" "B \<le> 255"
  shows "\<bar>lumaOf R G B - (5386305154335113 / 2 ^ 54 * of_int R + 2643612981266481 / 2 ^ 52 * of_int G
             + 8214565720323785 / 2 ^ 56 * of_int B)\<bar> \<le> 5 / 2 ^ 46 + 1 / 2 ^ 17"
proof -
  define r g b :: rat where "r = of_int R" and "g = of_int G" and "b = of_int B"
  have rgb: "0 \<le> r" "r \<le> 255" "0 \<le> g" "g \<le> 255" "0 \<le> b" "b \<le> 255"
    unfolding r_def g_def b_def using assms by simp_all
  define S where "S = dadd (dadd (dmul (dlit (299 / 1000)) r) (dmul (dlit (587 / 1000)) g))
               (dmul (dlit (114 / 1000)) b)"
  have eS: "\<bar>S - (5386305154335113 / 2 ^ 54 * r + 2643612981266481 / 2 ^ 52 * g
             + 8214565720323785 / 2 ^ 56 * b)\<bar> \<le> 5 / 2 ^ 46"
    unfolding S_def using rgb by (intro luma_sum_error)
  then have "\<bar>S\<bar> < 256" using rgb unfolding abs_le_iff abs_less_iff by (simp add: field_simps)
  then have "\<bar>to_float S - S\<bar> \<le> 1 / 2 ^ 17" by (rule to_float_error_256)
  then have "\<bar>to_float S - (5386305154335113 / 2 ^ 54 * r + 2643612981266481 / 2 ^ 52 * g
             + 8214565720323785 / 2 ^ 56 * b)\<bar> \<le> 5 / 2 ^ 46 + 1 / 2 ^ 17"
    using eS unfolding abs_le_iff abs_less_iff by (simp add: field_simps)
  then show ?thesis unfolding lumaOf_def S_def r_def g_def b_def .
qed

section \<open>Colour differences and their frequencies\<close>

lemma chroma_RY_bound:
  assumes "0 \<le> R" "R \<le> 255" "0 \<le> G" "G \<le> 255" "0 \<le> B" "B \<le> 255"
  shows "\<bar>to_float (dmul (dlit (713 / 1000)) (fsub (of_int R) (lumaOf R G B)))\<bar> \<le> 255 / 2"
proof -
  define r g b :: rat where "r = of_int R" and "g = of_int G" and "b = of_int B"
  have rgb: "0 \<le> r" "r \<le> 255" "0 \<le> g" "g \<le> 255" "0 \<le> b" "b \<le> 255"
    unfolding r_def g_def b_def using assms by simp_all
  define Y where "Y = lumaOf R G B"
  define Yx where "Yx = 5386305154335113 / 2 ^ 54 * r + 2643612981266481 / 2 ^ 52 * g
             + 8214565720323785 / 2 ^ 56 * b"
  have eY: "\<bar>Y - Yx\<bar> \<le> 5 / 2 ^ 46 + 1 / 2 ^ 17"
    unfolding Y_def Yx_def r_def g_def b_def using assms by (rule lumaOf_error)
  have Y: "0 \<le> Y" "Y \<le> 255" unfolding Y_def using assms by (rule lumaOf_range)+
  define d1 where "d1 = to_float (r - Y)"
  define d2 where "d2 = to_double (6422133068630327 / 2 ^ 53 * d1)"
  have "\<bar>r - Y\<bar> < 256" using rgb Y by simp
  then have e1: "\<bar>d1 - (r - Y)\<bar> \<le> 1 / 2 ^ 17" unfolding d1_def by (rule to_float_error_256)
  have lo: "- (179 :: rat) \<le> r - Yx" and hi: "r - Yx \<le> 179"
    unfolding Yx_def using rgb by (simp_all add: field_simps)
  have d1: "- 180 \<le> d1" "d1 \<le> 180"
    using e1 eY lo hi unfolding abs_le_iff by (simp_all add: field_simps)
  then have "\<bar>6422133068630327 / 2 ^ 53 * d1\<bar> < 256"
    unfolding abs_less_iff by (simp add: field_simps)
  then have e2: "\<bar>d2 - 6422133068630327 / 2 ^ 53 * d1\<bar> \<le> 1 / 2 ^ 46"
    unfolding d2_def by (rule to_double_error_256)
  have d2: "\<bar>d2\<bar> < 256" using e2 d1 unfolding abs_le_iff abs_less_iff by (simp add: field_simps)
  then have e3: "\<bar>to_float d2 - d2\<bar> \<le> 1 / 2 ^ 17" by (rule to_float_error_256)
  have lo': "- (1274524 / 10000 :: rat) \<le> 6422133068630327 / 2 ^ 53 * (r - Yx)"
    and hi': "6422133068630327 / 2 ^ 53 * (r - Yx) \<le> 1274524 / 10000"
    unfolding Yx_def using rgb by (simp_all add: field_simps)
  have t1: "\<bar>d1 - (r - Yx)\<bar> \<le> 1 / 2 ^ 15"
    using e1 eY unfolding abs_le_iff by (simp add: field_simps)
  have t2: "\<bar>6422133068630327 / 2 ^ 53 * d1 - 6422133068630327 / 2 ^ 53 * (r - Yx)\<bar> \<le> 1 / 2 ^ 15"
    using t1 unfolding abs_le_iff by (simp add: field_simps)
  have "\<bar>to_float d2\<bar> \<le> 255 / 2"
    using e3 e2 t2 lo' hi' unfolding abs_le_iff by (simp add: field_simps)
  then show ?thesis unfolding d2_def d1_def Y_def r_def fsub_def dmul_def dlit_713 .
qed


lemma chroma_BY_bound:
  assumes "0 \<le> R" "R \<le> 255" "0 \<le> G" "G \<le> 255" "0 \<le> B" "B \<le> 255"
  shows "\<bar>to_float (dmul (dlit (564 / 1000)) (fsub (of_int B) (lumaOf R G B)))\<bar> \<le> 255 / 2"
proof -
  define r g b :: rat where "r = of_int R" and "g = of_int G" and "b = of_int B"
  have rgb: "0 \<le> r" "r \<le> 255" "0 \<le> g" "g \<le> 255" "0 \<le> b" "b \<le> 255"
    unfolding r_def g_def b_def using assms by simp_all
  define Y where "Y = lumaOf R G B"
  define Yx where "Yx = 5386305154335113 / 2 ^ 54 * r + 2643612981266481 / 2 ^ 52 * g
             + 8214565720323785 / 2 ^ 56 * b"
  have eY: "\<bar>Y - Yx\<bar> \<le> 5 / 2 ^ 46 + 1 / 2 ^ 17"
    unfolding Y_def Yx_def r_def g_def b_def using assms by (rule lumaOf_error)
  have Y: "0 \<le> Y" "Y \<le> 255" unfolding Y_def using assms by (rule lumaOf_range)+
  define d1 where "d1 = to_float (b - Y)"
  define d2 where "d2 = to_double (5080060379673919 / 2 ^ 53 * d1)"
  have "\<bar>b - Y\<bar> < 256" using rgb Y by simp
  then have e1: "\<bar>d1 - (b - Y)\<bar> \<le> 1 / 2 ^ 17" unfolding d1_def by (rule to_float_error_256)
  have lo: "- (226 :: rat) \<le> b - Yx" and hi: "b - Yx \<le> 226"
    unfolding Yx_def using rgb by (simp_all add: field_simps)
  have d1: "- 227 \<le> d1" "d1 \<le> 227"
    using e1 eY lo hi unfolding abs_le_iff by (simp_all add: field_simps)
  then have "\<bar>5080060379673919 / 2 ^ 53 * d1\<bar> < 256"
    unfolding abs_less_iff by (simp add: field_simps)
  then have e2: "\<bar>d2 - 5080060379673919 / 2 ^ 53 * d1\<bar> \<le> 1 / 2 ^ 46"
    unfolding d2_def by (rule to_double_error_256)
  have d2: "\<bar>d2\<bar> < 256" using e2 d1 unfolding abs_le_iff abs_less_iff by (simp add: field_simps)
  then have e3: "\<bar>to_float d2 - d2\<bar> \<le> 1 / 2 ^ 17" by (rule to_float_error_256)
  have lo': "- (1274246 / 10000 :: rat) \<le> 5080060379673919 / 2 ^ 53 * (b - Yx)"
    and hi': "5080060379673919 / 2 ^ 53 * (b - Yx) \<le> 1274246 / 10000"
    unfolding Yx_def using rgb by (simp_all add: field_simps)
  have t1: "\<bar>d1 - (b - Yx)\<bar> \<le> 1 / 2 ^ 15"
    using e1 eY unfolding abs_le_iff by (simp add: field_simps)
  have t2: "\<bar>5080060379673919 / 2 ^ 53 * d1 - 5080060379673919 / 2 ^ 53 * (b - Yx)\<bar> \<le> 1 / 2 ^ 15"
    using t1 unfolding abs_le_iff by (simp add: field_simps)
  have "\<bar>to_float d2\<bar> \<le> 255 / 2"
    using e3 e2 t2 lo' hi' unfolding abs_le_iff by (simp add: field_simps)
  then show ?thesis unfolding d2_def d1_def Y_def b_def fsub_def dmul_def dlit_564 .
qed

lemma convertToSSTV_bounds:
  assumes "0 \<le> R" "R \<le> 255" "0 \<le> G" "G \<le> 255" "0 \<le> B" "B \<le> 255"
    and "convertToSSTV R G B = (Y, RY, BY)"
  shows "0 \<le> Y" "Y \<le> 255" "\<bar>RY\<bar> \<le> 255 / 2" "\<bar>BY\<bar> \<le> 255 / 2"
proof -
  have Y: "Y = lumaOf R G B"
    and RY: "RY = to_float (dmul (dlit (713 / 1000)) (fsub (of_int R) (lumaOf R G B)))"
    and BY: "BY = to_float (dmul (dlit (564 / 1000)) (fsub (of_int B) (lumaOf R G B)))"
    using assms(7) unfolding convertToSSTV_def Let_def by blast+
  show "0 \<le> Y" "Y \<le> 255" unfolding Y using assms(1-6) by (rule lumaOf_range)+
  show "\<bar>RY\<bar> \<le> 255 / 2" unfolding RY using assms(1-6) by (rule chroma_RY_bound)
  show "\<bar>BY\<bar> \<le> 255 / 2" unfolding BY using assms(1-6) by (rule chroma_BY_bound)
qed

lemma averageDiff_bound:
  assumes "\<bar>d1\<bar> \<le> 255 / 2" "\<bar>d2\<bar> \<le> 255 / 2"
  shows "\<bar>averageDiff d1 d2\<bar> \<le> 1276 / 10"
proof -
  define s where "s = to_float (d1 + d2)"
  define h where "h = to_double (s / 2)"
  have "\<bar>d1 + d2\<bar> < 256" using assms by linarith
  then have e1: "\<bar>s - (d1 + d2)\<bar> \<le> 1 / 2 ^ 17" unfolding s_def by (rule to_float_error_256)
  have s: "\<bar>s\<bar> \<le> 255 + 1 / 2 ^ 17" using e1 assms by linarith
  then have "\<bar>s / 2\<bar> < 256" unfolding abs_less_iff abs_le_iff by (simp add: field_simps)
  then have e2: "\<bar>h - s / 2\<bar> \<le> 1 / 2 ^ 46" unfolding h_def by (rule to_double_error_256)
  have h: "\<bar>h\<bar> \<le> 1275001 / 10000"
    using e2 s unfolding abs_le_iff by (simp add: field_simps)
  then have "\<bar>h\<bar> < 256" by linarith
  then have e3: "\<bar>to_float h - h\<bar> \<le> 1 / 2 ^ 17" by (rule to_float_error_256)
  have "\<bar>to_float h\<bar> \<le> 1276 / 10"
    using e3 h unfolding abs_le_iff by (simp add: field_simps)
  then show ?thesis unfolding h_def s_def averageDiff_def ddiv_def fadd_def .
qed

text \<open>The argument of the cast in \<open>mapDiffToFrequency\<close>.\<close>

lemma mapDiff_arg_bounds:
  assumes "\<bar>d\<bar> \<le> 1276 / 10"
  shows "0 \<le> dmul (ddiv (dadd d 128) 255) 800" and "dmul (ddiv (dadd d 128) 255) 800 < 802"
proof -
  define x1 where "x1 = to_double (d + 128)"
  define x2 where "x2 = to_double (x1 / 255)"
  define x3 where "x3 = to_double (x2 * 800)"
  have "0 \<le> d + 128" using assms by linarith
  then have p1: "0 \<le> x1" unfolding x1_def by (rule to_double_nonneg)
  then have p2: "0 \<le> x2" unfolding x2_def by (intro to_double_nonneg) simp
  then have p3: "0 \<le> x3" unfolding x3_def by (intro to_double_nonneg) simp
  have "\<bar>d + 128\<bar> < 256" using assms by linarith
  then have "\<bar>x1 - (d + 128)\<bar> \<le> 1 / 2 ^ 46" unfolding x1_def by (rule to_double_error_256)
  then have u1: "x1 \<le> 25561 / 100" using assms unfolding abs_le_iff by (simp add: field_simps)
  then have "\<bar>x1 / 255\<bar> < 256" using p1 by (simp add: abs_less_iff field_simps)
  then have "\<bar>x2 - x1 / 255\<bar> \<le> 1 / 2 ^ 46" unfolding x2_def by (rule to_double_error_256)
  then have u2: "x2 \<le> 10024 / 10000" using u1 unfolding abs_le_iff by (simp add: field_simps)
  then have "\<bar>x2 * 800\<bar> < 2 powi 10" using p2 by (simp add: abs_less_iff field_simps)
  then have "\<bar>x3 - x2 * 800\<bar> \<le> 2 powi (10 - 54)" unfolding x3_def
    by (rule to_double_error) simp
  then have u3: "x3 < 802" using u2 unfolding abs_le_iff by (simp add: field_simps)
  show "0 \<le> dmul (ddiv (dadd d 128) 255) 800"
    using p3 unfolding x3_def x2_def x1_def dmul_def ddiv_def dadd_def .
  show "dmul (ddiv (dadd d 128) 255) 800 < 802"
    using u3 unfolding x3_def x2_def x1_def dmul_def ddiv_def dadd_def .
qed

lemma cast_uint32_nonneg:
  assumes "0 \<le> x" "x < 2 ^ 32"
  shows "cast_uint32 x = Inr \<lfloor>x\<rfloor>"
  using assms by (simp add: cast_uint32_def)

lemma mapDiffToFrequency_range:
  assumes "\<bar>d\<bar> \<le> 1276 / 10"
  shows "\<exists>f. mapDiffToFrequency d = Inr f \<and> 1500 \<le> f \<and> f \<le> 2301"
proof -
  define x where "x = dmul (ddiv (dadd d 128) 255) 800"
  have x: "0 \<le> x" "x < 802" unfolding x_def using assms by (rule mapDiff_arg_bounds)+
  then have c: "cast_uint32 x = Inr \<lfloor>x\<rfloor>" by (intro cast_uint32_nonneg) simp_all
  have f: "0 \<le> \<lfloor>x\<rfloor>" "\<lfloor>x\<rfloor> \<le> 801" using x by (simp_all add: floor_le_iff)
  have "mapDiffToFrequency d = Inr ((1500 + \<lfloor>x\<rfloor>) mod 2 ^ 32)"
    unfolding mapDiffToFrequency_def x_def [symmetric] c by (simp add: bind_fault_def)
  moreover have "(1500 + \<lfloor>x\<rfloor>) mod 2 ^ 32 = 1500 + \<lfloor>x\<rfloor>" using f by simp
  ultimately show ?thesis using f by simp
qed

section \<open>The frequency of a luminance\<close>

lemma mapY_arg_mono: "Y1 \<le> Y2 \<Longrightarrow> dmul (ddiv Y1 255) 800 \<le> dmul (ddiv Y2 255) 800"
  unfolding dmul_def ddiv_def
  by (intro to_double_mono mult_right_mono divide_right_mono) simp_all

lemma mapDiff_arg_mono:
  "d1 \<le> d2 \<Longrightarrow> dmul (ddiv (dadd d1 128) 255) 800 \<le> dmul (ddiv (dadd d2 128) 255) 800"
  unfolding dmul_def ddiv_def dadd_def
  by (intro to_double_mono mult_right_mono divide_right_mono add_right_mono) simp_all

lemma mapY_arg_0: "dmul (ddiv 0 255) 800 = 0"
  by (simp add: dmul_def ddiv_def)

lemma mapY_arg_255: "dmul (ddiv 255 255) 800 = 800"
  by (simp add: fp_eval)

lemma mapDiff_arg_lo: "dmul (ddiv (dadd (- 128) 128) 255) 800 = 0"
  by (simp add: dmul_def ddiv_def dadd_def)

lemma mapDiff_arg_hi: "dmul (ddiv (dadd 127 128) 255) 800 = 800"
  by (simp add: fp_eval)

lemma mapYToFrequency_eq:
  assumes "0 \<le> dmul (ddiv Y 255) 800" "dmul (ddiv Y 255) 800 \<le> 800"
  shows "mapYToFrequency Y = Inr (1500 + \<lfloor>dmul (ddiv Y 255) 800\<rfloor>)"
proof -
  define x where "x = dmul (ddiv Y 255) 800"
  have x: "0 \<le> x" "x \<le> 800" using assms unfolding x_def by simp_all
  then have c: "cast_uint32 x = Inr \<lfloor>x\<rfloor>" by (intro cast_uint32_nonneg) simp_all
  have f: "0 \<le> \<lfloor>x\<rfloor>" "\<lfloor>x\<rfloor> \<le> 800" using x by (simp_all add: floor_le_iff)
  have "mapYToFrequency Y = Inr ((1500 + \<lfloor>x\<rfloor>) mod 2 ^ 32)"
    unfolding mapYToFrequency_def x_def [symmetric] c by (simp add: bind_fault_def)
  moreover have "(1500 + \<lfloor>x\<rfloor>) mod 2 ^ 32 = 1500 + \<lfloor>x\<rfloor>" using f by simp
  ultimately show ?thesis unfolding x_def by simp
qed

lemma mapDiffToFrequency_eq:
  assumes "0 \<le> dmul (ddiv (dadd d 128) 255) 800" "dmul (ddiv (dadd d 128) 255) 800 < 802"
  shows "mapDiffToFrequency d = Inr (1500 + \<lfloor>dmul (ddiv (dadd d 128) 255) 800\<rfloor>)"
proof -
  define x where "x = dmul (ddiv (dadd d 128) 255) 800"
  have x: "0 \<le> x" "x < 802" using assms unfolding x_def by simp_all
  then have c: "cast_uint32 x = Inr \<lfloor>x\<rfloor>" by (intro cast_uint32_nonneg) simp_all
  have f: "0 \<le> \<lfloor>x\<rfloor>" "\<lfloor>x\<rfloor> \<le> 801" using x by (simp_all add: floor_le_iff)
  have "mapDiffToFrequency d = Inr ((1500 + \<lfloor>x\<rfloor>) mod 2 ^ 32)"
    unfolding mapDiffToFrequency_def x_def [symmetric] c by (simp add: bind_fault_def)
  moreover have "(1500 + \<lfloor>x\<rfloor>) mod 2 ^ 32 = 1500 + \<lfloor>x\<rfloor>" using f by simp
  ultimately show ?thesis unfolding x_def by simp
qed

lemma mapY_arg_range:
  assumes "0 \<le> Y" "Y \<le> 255"
  shows "0 \<le> dmul (ddiv Y 255) 800" "dmul (ddiv Y 255) 800 \<le> 800"
  using mapY_arg_mono [OF assms(1)] mapY_arg_mono [OF assms(2)]
  by (simp_all only: mapY_arg_0 mapY_arg_255)

lemma mapDiff_arg_range:
  assumes "- 128 \<le> d" "d \<le> 127"
  shows "0 \<le> dmul (ddiv (dadd d 128) 255) 800" "dmul (ddiv (dadd d 128) 255) 800 \<le> 800"
  using mapDiff_arg_mono [OF assms(1)] mapDiff_arg_mono [OF assms(2)]
  by (simp_all only: mapDiff_arg_lo mapDiff_arg_hi)

lemma mapYToFrequency_range:
  assumes "0 \<le> Y" "Y \<le> 255"
  shows "\<exists>f. mapYToFrequency Y = Inr f \<and> 1500 \<le> f \<and> f \<le> 2300"
proof -
  note r = mapY_arg_range [OF assms]
  have "0 \<le> \<lfloor>dmul (ddiv Y 255) 800\<rfloor>" "\<lfloor>dmul (ddiv Y 255) 800\<rfloor> \<le> 800"
    using r by (simp_all add: floor_le_iff)
  then show ?thesis using mapYToFrequency_eq [OF r] by simp
qed

text \<open>Integer samples: the double-precision product is close enough to the exact quotient.\<close>

lemma to_double_of_int:
  assumes "0 \<le> k" "k \<le> 255"
  shows "to_double (of_int k) = of_int k"
proof (cases "k = 0")
  case True
  then show ?thesis by simp
next
  case False
  then have k: "1 \<le> k" using assms by simp
  have "(of_int k :: rat) \<le> 255" using assms by simp
  then have "of_int k + 0 < (2::rat) powi (int 53)" by simp
  then have "round_fp 53 (- 1022) (of_int k + 0) = of_int k"
    using k by (intro round_fp_near_int) simp_all
  then show ?thesis by (simp add: to_double_def)
qed

lemma coprime_51_160: "coprime (51::int) 160"
  by code_simp

lemma multiples_of_51:
  fixes n :: int
  assumes "(n * 160) mod 51 = 0" "0 \<le> n" "n \<le> 255"
  shows "n = 0 \<or> n = 51 \<or> n = 102 \<or> n = 153 \<or> n = 204 \<or> n = 255"
proof -
  have "51 dvd n * 160" using assms(1) by (simp only: mod_eq_0_iff_dvd)
  then have "51 dvd n" using coprime_51_160 by (simp only: coprime_dvd_mult_left_iff)
  then obtain k where k: "n = 51 * k" by (rule dvdE)
  have "0 \<le> k" "k \<le> 5" using assms(2,3) unfolding k by linarith+
  then have "k = 0 \<or> k = 1 \<or> k = 2 \<or> k = 3 \<or> k = 4 \<or> k = 5" by linarith
  then show ?thesis unfolding k by auto
qed

lemma scaled_sample_floor:
  assumes "0 \<le> n" "n \<le> 255"
  shows "\<lfloor>dmul (ddiv (of_int n) 255) 800\<rfloor> = (n * 160) div 51"
proof (cases "(n * 160) mod 51 = 0")
  case True
  then have "n = 0 \<or> n = 51 \<or> n = 102 \<or> n = 153 \<or> n = 204 \<or> n = 255"
    using assms by (rule multiples_of_51)
  then show ?thesis by (elim disjE) (simp_all add: fp_eval)
next
  case False
  define m where "m = (n * 160) div 51"
  define r where "r = (n * 160) mod 51"
  have "0 \<le> r" "r < 51" unfolding r_def by simp_all
  then have r: "1 \<le> r" "r \<le> 50" using False unfolding r_def by linarith+
  have nm: "n * 160 = 51 * m + r" unfolding m_def r_def by (rule mult_div_mod_eq [symmetric])
  define q :: rat where "q = of_int n / 255"
  have q: "0 \<le> q" "q \<le> 1" unfolding q_def using assms by simp_all
  define y where "y = to_double q"
  define x where "x = to_double (y * 800)"
  have "\<bar>q\<bar> < 2 powi 1" using q by simp
  then have "\<bar>y - q\<bar> \<le> 2 powi (1 - 54)" unfolding y_def by (rule to_double_error) simp
  then have ey: "\<bar>y - q\<bar> \<le> 1 / 2 ^ 53" by simp
  have "\<bar>y * 800\<bar> < 2 powi 10" using ey q unfolding abs_le_iff abs_less_iff by (simp add: field_simps)
  then have "\<bar>x - y * 800\<bar> \<le> 2 powi (10 - 54)" unfolding x_def by (rule to_double_error) simp
  then have ex: "\<bar>x - y * 800\<bar> \<le> 1 / 2 ^ 44" by simp
  have exact: "q * 800 = of_int m + of_int r / 51"
  proof -
    have "q * 800 = of_int (n * 160) / 51" unfolding q_def by simp
    also have "\<dots> = of_int (51 * m + r) / 51" unfolding nm ..
    also have "\<dots> = of_int m + of_int r / 51" by (simp add: field_simps)
    finally show ?thesis .
  qed
  have rr: "(1::rat) \<le> of_int r" "(of_int r :: rat) \<le> 50" using r by simp_all
  have lo: "of_int m \<le> x" and hi: "x < of_int m + 1"
    using ex ey exact rr unfolding abs_le_iff by (simp_all add: field_simps)
  have "\<lfloor>x\<rfloor> = m" using lo hi by (simp add: floor_unique)
  then show ?thesis unfolding x_def y_def q_def m_def dmul_def ddiv_def .
qed

lemma mapYToFrequency_int:
  assumes "0 \<le> n" "n \<le> 255"
  shows "mapYToFrequency (of_int n) = Inr (1500 + (n * 160) div 51)"
proof -
  have "(0::rat) \<le> of_int n" "(of_int n :: rat) \<le> 255" using assms by simp_all
  note r = mapY_arg_range [OF this]
  show ?thesis using mapYToFrequency_eq [OF r] scaled_sample_floor [OF assms] by simp
qed

lemma mapDiffToFrequency_int:
  assumes "- 128 \<le> d" "d \<le> 127"
  shows "mapDiffToFrequency (of_int d) = Inr (1500 + ((d + 128) * 160) div 51)"
proof -
  have k: "0 \<le> d + 128" "d + 128 \<le> 255" using assms by simp_all
  have "dadd (of_int d) 128 = to_double (of_int (d + 128))" by (simp add: dadd_def)
  also have "\<dots> = of_int (d + 128)" by (rule to_double_of_int [OF k])
  finally have a: "dadd (of_int d) 128 = of_int (d + 128)" .
  have "(0::rat) \<le> of_int (d + 128)" "(of_int (d + 128) :: rat) \<le> 255" using k by simp_all
  note r = mapY_arg_range [OF this]
  have "mapDiffToFrequency (of_int d) = mapYToFrequency (of_int (d + 128))"
    unfolding mapDiffToFrequency_def mapYToFrequency_def a ..
  then show ?thesis using mapYToFrequency_int [OF k] by simp
qed


lemma mapDiffToFrequency_0: "mapDiffToFrequency 0 = Inr 1901"
  using mapDiffToFrequency_int [of 0] by simp

section \<open>Pixels of the canvas\<close>

lemma scale5_bounds:
  fixes k :: int
  assumes "0 \<le> k" "k \<le> 31"
  shows "0 \<le> (k * 255) div 31" "(k * 255) div 31 \<le> 255"
proof -
  show "0 \<le> (k * 255) div 31" using assms(1) by (intro pos_imp_zdiv_nonneg_iff [THEN iffD2]) simp_all
  have "(k * 255) div 31 \<le> (31 * 255) div 31" using assms(2) by (intro zdiv_mono1) simp_all
  then show "(k * 255) div 31 \<le> 255" by simp
qed

lemma scale6_bounds:
  fixes k :: int
  assumes "0 \<le> k" "k \<le> 63"
  shows "0 \<le> (k * 255) div 63" "(k * 255) div 63 \<le> 255"
proof -
  show "0 \<le> (k * 255) div 63" using assms(1) by (intro pos_imp_zdiv_nonneg_iff [THEN iffD2]) simp_all
  have "(k * 255) div 63 \<le> (63 * 255) div 63" using assms(2) by (intro zdiv_mono1) simp_all
  then show "(k * 255) div 63 \<le> 255" by simp
qed

lemma and_mask5: "0 \<le> uint ((w :: 16 word) AND 0x1F)" "uint (w AND 0x1F) \<le> 31"
proof -
  have "w AND 0x1F \<le> 0x1F" by (rule word_and_le1)
  then show "uint (w AND 0x1F) \<le> 31" by (simp add: word_le_def)
  show "0 \<le> uint (w AND 0x1F)" by simp
qed

lemma and_mask6: "0 \<le> uint ((w :: 16 word) AND 0x3F)" "uint (w AND 0x3F) \<le> 63"
proof -
  have "w AND 0x3F \<le> 0x3F" by (rule word_and_le1)
  then show "uint (w AND 0x3F) \<le> 63" by (simp add: word_le_def)
  show "0 \<le> uint (w AND 0x3F)" by simp
qed

lemma rgb565_bounds:
  assumes "rgb565 w = (R, G, B)"
  shows "0 \<le> R" "R \<le> 255" "0 \<le> G" "G \<le> 255" "0 \<le> B" "B \<le> 255"
proof -
  have R: "R = (uint (drop_bit 11 w AND 0x1F) * 255) div 31"
    and G: "G = (uint (drop_bit 5 w AND 0x3F) * 255) div 63"
    and B: "B = (uint (w AND 0x1F) * 255) div 31"
    using assms unfolding rgb565_def Let_def by blast+
  show "0 \<le> R" "R \<le> 255" unfolding R by (rule scale5_bounds [OF and_mask5])+
  show "0 \<le> G" "G \<le> 255" unfolding G by (rule scale6_bounds [OF and_mask6])+
  show "0 \<le> B" "B \<le> 255" unfolding B by (rule scale5_bounds [OF and_mask5])+
qed

section \<open>One firing of the callback\<close>

lemma pixel_luma_frequency:
  assumes "rgb565 w = (R, G, B)" "convertToSSTV R G B = (Y, RY, BY)"
  shows "\<exists>f. mapYToFrequency Y = Inr f \<and> 1500 \<le> f \<and> f \<le> 2300"
proof -
  note b = rgb565_bounds [OF assms(1)]
  note c = convertToSSTV_bounds [OF b assms(2)]
  show ?thesis using c(1,2) by (rule mapYToFrequency_range)
qed

lemma pixel_diff_bounds:
  assumes "rgb565 w = (R, G, B)" "convertToSSTV R G B = (Y, RY, BY)"
  shows "\<bar>RY\<bar> \<le> 255 / 2" "\<bar>BY\<bar> \<le> 255 / 2"
proof -
  note b = rgb565_bounds [OF assms(1)]
  note c = convertToSSTV_bounds [OF b assms(2)]
  show "\<bar>RY\<bar> \<le> 255 / 2" "\<bar>BY\<bar> \<le> 255 / 2" by (rule c(3), rule c(4))
qed

lemma pixel_RY_frequency:
  assumes "rgb565 w1 = (R1, G1, B1)" "convertToSSTV R1 G1 B1 = (Y1, RY1, BY1)"
    and "rgb565 w2 = (R2, G2, B2)" "convertToSSTV R2 G2 B2 = (Y2, RY2, BY2)"
  shows "\<exists>f. mapDiffToFrequency (averageDiff RY1 RY2) = Inr f \<and> 1500 \<le> f \<and> f \<le> 2301"
  by (intro mapDiffToFrequency_range averageDiff_bound
      pixel_diff_bounds(1) [OF assms(1,2)] pixel_diff_bounds(1) [OF assms(3,4)])

lemma pixel_BY_frequency:
  assumes "rgb565 w1 = (R1, G1, B1)" "convertToSSTV R1 G1 B1 = (Y1, RY1, BY1)"
    and "rgb565 w2 = (R2, G2, B2)" "convertToSSTV R2 G2 B2 = (Y2, RY2, BY2)"
  shows "\<exists>f. mapDiffToFrequency (averageDiff BY1 BY2) = Inr f \<and> 1500 \<le> f \<and> f \<le> 2301"
  by (intro mapDiffToFrequency_range averageDiff_bound
      pixel_diff_bounds(2) [OF assms(1,2)] pixel_diff_bounds(2) [OF assms(3,4)])

lemma lumaTone_works:
  "mapYToFrequency (fst (case pixelAt cv x row of (R, G, B) \<Rightarrow> convertToSSTV R G B))
     = Inr (lumaTone cv row x) \<and> 1500 \<le> lumaTone cv row x \<and> lumaTone cv row x \<le> 2300"
proof -
  obtain R G B where p: "pixelAt cv x row = (R, G, B)" by (cases "pixelAt cv x row")
  obtain Y RY BY where c: "convertToSSTV R G B = (Y, RY, BY)" by (cases "convertToSSTV R G B")
  from p have w: "rgb565 (cv (row * imageWidth + x)) = (R, G, B)" by (simp add: pixelAt_def)
  from pixel_luma_frequency [OF w c] obtain f where
    f: "mapYToFrequency Y = Inr f" "1500 \<le> f" "f \<le> 2300" by blast
  have "lumaTone cv row x = f" by (simp add: lumaTone_def p c f freqOf_def)
  then show ?thesis using f by (simp add: p c)
qed

lemma diffRYTone_works:
  "mapDiffToFrequency (averageDiff
       (fst (snd (case pixelAt cv x oddRow of (R, G, B) \<Rightarrow> convertToSSTV R G B)))
       (fst (snd (case pixelAt cv x evenRow of (R, G, B) \<Rightarrow> convertToSSTV R G B))))
     = Inr (diffRYTone cv oddRow evenRow x)
   \<and> 1500 \<le> diffRYTone cv oddRow evenRow x \<and> diffRYTone cv oddRow evenRow x \<le> 2301"
proof -
  obtain R1 G1 B1 where p1: "pixelAt cv x oddRow = (R1, G1, B1)" by (cases "pixelAt cv x oddRow")
  obtain R2 G2 B2 where p2: "pixelAt cv x evenRow = (R2, G2, B2)" by (cases "pixelAt cv x evenRow")
  obtain Y1 RY1 BY1 where c1: "convertToSSTV R1 G1 B1 = (Y1, RY1, BY1)"
    by (cases "convertToSSTV R1 G1 B1")
  obtain Y2 RY2 BY2 where c2: "convertToSSTV R2 G2 B2 = (Y2, RY2, BY2)"
    by (cases "convertToSSTV R2 G2 B2")
  from p1 have w1: "rgb565 (cv (oddRow * imageWidth + x)) = (R1, G1, B1)" by (simp add: pixelAt_def)
  from p2 have w2: "rgb565 (cv (evenRow * imageWidth + x)) = (R2, G2, B2)" by (simp add: pixelAt_def)
  from pixel_RY_frequency [OF w1 c1 w2 c2] obtain f where
    f: "mapDiffToFrequency (averageDiff RY1 RY2) = Inr f" "1500 \<le> f" "f \<le> 2301" by blast
  have "diffRYTone cv oddRow evenRow x = f" by (simp add: diffRYTone_def p1 p2 c1 c2 f freqOf_def)
  then show ?thesis using f by (simp add: p1 p2 c1 c2)
qed

lemma diffBYTone_works:
  "mapDiffToFrequency (averageDiff
       (snd (snd (case pixelAt cv x oddRow of (R, G, B) \<Rightarrow> convertToSSTV R G B)))
       (snd (snd (case pixelAt cv x evenRow of (R, G, B) \<Rightarrow> convertToSSTV R G B))))
     = Inr (diffBYTone cv oddRow evenRow x)
   \<and> 1500 \<le> diffBYTone cv oddRow evenRow x \<and> diffBYTone cv oddRow evenRow x \<le> 2301"
proof -
  obtain R1 G1 B1 where p1: "pixelAt cv x oddRow = (R1, G1, B1)" by (cases "pixelAt cv x oddRow")
  obtain R2 G2 B2 where p2: "pixelAt cv x evenRow = (R2, G2, B2)" by (cases "pixelAt cv x evenRow")
  obtain Y1 RY1 BY1 where c1: "convertToSSTV R1 G1 B1 = (Y1, RY1, BY1)"
    by (cases "convertToSSTV R1 G1 B1")
  obtain Y2 RY2 BY2 where c2: "convertToSSTV R2 G2 B2 = (Y2, RY2, BY2)"
    by (cases "convertToSSTV R2 G2 B2")
  from p1 have w1: "rgb565 (cv (oddRow * imageWidth + x)) = (R1, G1, B1)" by (simp add: pixelAt_def)
  from p2 have w2: "rgb565 (cv (evenRow * imageWidth + x)) = (R2, G2, B2)" by (simp add: pixelAt_def)
  from pixel_BY_frequency [OF w1 c1 w2 c2] obtain f where
    f: "mapDiffToFrequency (averageDiff BY1 BY2) = Inr f" "1500 \<le> f" "f \<le> 2301" by blast
  have "diffBYTone cv oddRow evenRow x = f" by (simp add: diffBYTone_def p1 p2 c1 c2 f freqOf_def)
  then show ?thesis using f by (simp add: p1 p2 c1 c2)
qed

lemma scanTone_range: "1500 \<le> scanTone cv s x \<and> scanTone cv s x \<le> 2301"
  using lumaTone_works [of cv x "currentRow s"]
    diffRYTone_works [of cv x "currentRowOdd s" "currentRowEven s"]
    diffBYTone_works [of cv x "currentRowOdd s" "currentRowEven s"]
  by (cases "currentSegment s") (simp_all add: scanTone_def)

lemma index_in_canvas:
  assumes "0 \<le> x" "x < imageWidth" "0 \<le> y" "y < imageHeight"
  shows "0 \<le> y * imageWidth + x" "y * imageWidth + x < imageWidth * imageHeight"
  using assms unfolding imageWidth_def imageHeight_def by simp_all

lemma getCanvasPixel_in_range:
  assumes "0 \<le> x" "x < imageWidth" "0 \<le> y" "y < imageHeight"
  shows "getCanvasPixel cv x y s = Inr (pixelAt cv x y, s\<lparr>accessed := accessed s @ [(x, y)]\<rparr>)"
  using index_in_canvas [OF assms] by (simp add: getCanvasPixel_def pixelAt_def Let_def)

lemma callback_step:
  assumes "0 \<le> pixelCounter s" "pixelCounter s < imageWidth" "rowsValid s"
  shows "\<exists>s'. pixelTimerCallback cv s = Inr s'
    \<and> pixelCounter s' = pixelCounter s + 1
    \<and> rowFinished s' = (rowFinished s \<or> imageWidth \<le> pixelCounter s + 1)
    \<and> sameScan s s'
    \<and> emitted s' = emitted s @ Tone (scanTone cv s (pixelCounter s))
         # (if imageWidth \<le> pixelCounter s + 1 then [TimerStop] else [])
    \<and> accessed s' = accessed s @ scanReads s (pixelCounter s)"
proof (cases "currentSegment s")
  case SEG_Y
  then have row: "0 \<le> currentRow s" "currentRow s < imageHeight"
    using assms(3) by (simp_all add: rowsValid_def)
  note g = getCanvasPixel_in_range [OF assms(1,2) row, of cv s]
  note t = lumaTone_works [of cv "pixelCounter s" "currentRow s"]
  obtain R G B where p: "pixelAt cv (pixelCounter s) (currentRow s) = (R, G, B)"
    by (cases "pixelAt cv (pixelCounter s) (currentRow s)")
  obtain Y RY BY where c: "convertToSSTV R G B = (Y, RY, BY)" by (cases "convertToSSTV R G B")
  have f: "mapYToFrequency Y = Inr (lumaTone cv (currentRow s) (pixelCounter s))"
    using t by (simp add: p c)
  show ?thesis
    by (simp add: pixelTimerCallback_def SEG_Y g p c f bind_fault_def ledcWriteTone_def emit_def
        Let_def scanTone_def scanReads_def sameScan_def)
next
  case SEG_RY
  then have row: "0 \<le> currentRowOdd s" "currentRowOdd s < imageHeight"
    "0 \<le> currentRowEven s" "currentRowEven s < imageHeight"
    using assms(3) by (simp_all add: rowsValid_def)
  note g1 = getCanvasPixel_in_range [OF assms(1,2) row(1,2), of cv]
  note g2 = getCanvasPixel_in_range [OF assms(1,2) row(3,4), of cv]
  note t = diffRYTone_works [of cv "pixelCounter s" "currentRowOdd s" "currentRowEven s"]
  obtain R1 G1 B1 where p1: "pixelAt cv (pixelCounter s) (currentRowOdd s) = (R1, G1, B1)"
    by (cases "pixelAt cv (pixelCounter s) (currentRowOdd s)")
  obtain R2 G2 B2 where p2: "pixelAt cv (pixelCounter s) (currentRowEven s) = (R2, G2, B2)"
    by (cases "pixelAt cv (pixelCounter s) (currentRowEven s)")
  obtain Y1 RY1 BY1 where c1: "convertToSSTV R1 G1 B1 = (Y1, RY1, BY1)"
    by (cases "convertToSSTV R1 G1 B1")
  obtain Y2 RY2 BY2 where c2: "convertToSSTV R2 G2 B2 = (Y2, RY2, BY2)"
    by (cases "convertToSSTV R2 G2 B2")
  have f: "mapDiffToFrequency (averageDiff RY1 RY2)
      = Inr (diffRYTone cv (currentRowOdd s) (currentRowEven s) (pixelCounter s))"
    using t by (simp add: p1 p2 c1 c2)
  show ?thesis
    by (simp add: pixelTimerCallback_def SEG_RY g1 g2 p1 p2 c1 c2 f bind_fault_def ledcWriteTone_def
        emit_def Let_def scanTone_def scanReads_def sameScan_def)
next
  case SEG_BY
  then have row: "0 \<le> currentRowOdd s" "currentRowOdd s < imageHeight"
    "0 \<le> currentRowEven s" "currentRowEven s < imageHeight"
    using assms(3) by (simp_all add: rowsValid_def)
  note g1 = getCanvasPixel_in_range [OF assms(1,2) row(1,2), of cv]
  note g2 = getCanvasPixel_in_range [OF assms(1,2) row(3,4), of cv]
  note t = diffBYTone_works [of cv "pixelCounter s" "currentRowOdd s" "currentRowEven s"]
  obtain R1 G1 B1 where p1: "pixelAt cv (pixelCounter s) (currentRowOdd s) = (R1, G1, B1)"
    by (cases "pixelAt cv (pixelCounter s) (currentRowOdd s)")
  obtain R2 G2 B2 where p2: "pixelAt cv (pixelCounter s) (currentRowEven s) = (R2, G2, B2)"
    by (cases "pixelAt cv (pixelCounter s) (currentRowEven s)")
  obtain Y1 RY1 BY1 where c1: "convertToSSTV R1 G1 B1 = (Y1, RY1, BY1)"
    by (cases "convertToSSTV R1 G1 B1")
  obtain Y2 RY2 BY2 where c2: "convertToSSTV R2 G2 B2 = (Y2, RY2, BY2)"
    by (cases "convertToSSTV R2 G2 B2")
  have f: "mapDiffToFrequency (averageDiff BY1 BY2)
      = Inr (diffBYTone cv (currentRowOdd s) (currentRowEven s) (pixelCounter s))"
    using t by (simp add: p1 p2 c1 c2)
  show ?thesis
    by (simp add: pixelTimerCallback_def SEG_BY g1 g2 p1 p2 c1 c2 f bind_fault_def ledcWriteTone_def
        emit_def Let_def scanTone_def scanReads_def sameScan_def)
qed

section \<open>A scan segment is the callback fired once per column\<close>

lemma ticks_Suc_end: "ticks cv (Suc n) s = bind_fault (ticks cv n s) (pixelTimerCallback cv)"
proof (induction n arbitrary: s)
  case 0
  then show ?case by (simp add: bind_fault_def split: sum.splits)
next
  case (Suc n)
  show ?case
  proof (cases "pixelTimerCallback cv s")
    case (Inl e)
    then show ?thesis by (simp add: bind_fault_def)
  next
    case (Inr s1)
    have "ticks cv (Suc (Suc n)) s = ticks cv (Suc n) s1" by (simp add: Inr bind_fault_def)
    also have "\<dots> = bind_fault (ticks cv n s1) (pixelTimerCallback cv)" by (rule Suc.IH)
    also have "ticks cv n s1 = ticks cv (Suc n) s" by (simp add: Inr bind_fault_def)
    finally show ?thesis .
  qed
qed

lemma sameScan_refl [simp]: "sameScan s s"
  by (simp add: sameScan_def)

lemma sameScan_trans: "sameScan s s1 \<Longrightarrow> sameScan s1 s2 \<Longrightarrow> sameScan s s2"
  by (simp add: sameScan_def)

lemma sameScan_scanTone: "sameScan s s' \<Longrightarrow> scanTone cv s' = scanTone cv s"
  by (rule ext) (auto simp: sameScan_def scanTone_def split: SegmentType.splits)

lemma sameScan_scanReads: "sameScan s s' \<Longrightarrow> scanReads s' = scanReads s"
  by (rule ext) (auto simp: sameScan_def scanReads_def split: SegmentType.splits)

lemma sameScan_rowsValid: "sameScan s s' \<Longrightarrow> rowsValid s' = rowsValid s"
  by (auto simp: sameScan_def rowsValid_def split: SegmentType.splits)

lemma ticks_run:
  assumes "0 \<le> pixelCounter s" "pixelCounter s < imageWidth" "rowsValid s" "\<not> rowFinished s"
    and "pixelCounter s + int n \<le> imageWidth"
  shows "\<exists>s'. ticks cv n s = Inr s'
    \<and> pixelCounter s' = pixelCounter s + int n
    \<and> rowFinished s' = (imageWidth \<le> pixelCounter s + int n)
    \<and> sameScan s s'
    \<and> emitted s' = emitted s @ map (\<lambda>x. Tone (scanTone cv s x)) [pixelCounter s..pixelCounter s + int n - 1]
         @ (if imageWidth \<le> pixelCounter s + int n then [TimerStop] else [])
    \<and> accessed s' = accessed s @ concat (map (scanReads s) [pixelCounter s..pixelCounter s + int n - 1])"
  using assms(5)
proof (induction n)
  case 0
  then show ?case using assms(2,4) by simp
next
  case (Suc n)
  then have le: "pixelCounter s + int n < imageWidth" by simp
  with Suc.IH obtain sn where sn: "ticks cv n s = Inr sn"
    "pixelCounter sn = pixelCounter s + int n" "\<not> rowFinished sn" "sameScan s sn"
    "emitted sn = emitted s @ map (\<lambda>x. Tone (scanTone cv s x)) [pixelCounter s..pixelCounter s + int n - 1]"
    "accessed sn = accessed s @ concat (map (scanReads s) [pixelCounter s..pixelCounter s + int n - 1])"
    by auto
  have v: "0 \<le> pixelCounter sn" "pixelCounter sn < imageWidth" "rowsValid sn"
    using sn(2) assms(1) le sameScan_rowsValid [OF sn(4)] assms(3) by simp_all
  from callback_step [OF v, of cv] obtain s' where s': "pixelTimerCallback cv sn = Inr s'"
    "pixelCounter s' = pixelCounter sn + 1"
    "rowFinished s' = (rowFinished sn \<or> imageWidth \<le> pixelCounter sn + 1)"
    "sameScan sn s'"
    "emitted s' = emitted sn @ Tone (scanTone cv sn (pixelCounter sn))
         # (if imageWidth \<le> pixelCounter sn + 1 then [TimerStop] else [])"
    "accessed s' = accessed sn @ scanReads sn (pixelCounter sn)"
    by blast
  have up: "[pixelCounter s..pixelCounter s + int (Suc n) - 1]
      = [pixelCounter s..pixelCounter s + int n - 1] @ [pixelCounter s + int n]"
    using upto_rec2 [of "pixelCounter s" "pixelCounter s + int n"] by (simp add: add.commute)
  have "ticks cv (Suc n) s = Inr s'" unfolding ticks_Suc_end by (simp add: sn(1) s'(1) bind_fault_def)
  moreover have "pixelCounter s' = pixelCounter s + int (Suc n)" using s'(2) sn(2) by simp
  moreover have "rowFinished s' = (imageWidth \<le> pixelCounter s + int (Suc n))"
    using s'(3) sn(2,3) by (simp add: add.commute add.left_commute)
  moreover have "sameScan s s'" using sn(4) s'(4) by (rule sameScan_trans)
  moreover have "emitted s' = emitted s @ map (\<lambda>x. Tone (scanTone cv s x)) [pixelCounter s..pixelCounter s + int (Suc n) - 1]
         @ (if imageWidth \<le> pixelCounter s + int (Suc n) then [TimerStop] else [])"
    unfolding up s'(5) sn(5) sameScan_scanTone [OF sn(4)] sn(2)
    by (simp add: add.commute add.left_commute)
  moreover have "accessed s' = accessed s @ concat (map (scanReads s) [pixelCounter s..pixelCounter s + int (Suc n) - 1])"
    unfolding up s'(6) sn(6) sameScan_scanReads [OF sn(4)] sn(2) by simp
  ultimately show ?case by blast
qed

lemma await_ticks:
  assumes "0 \<le> pixelCounter s" "pixelCounter s < imageWidth" "rowsValid s" "\<not> rowFinished s"
  shows "awaitRowFinished cv s = ticks cv (nat (imageWidth - pixelCounter s)) s"
  using assms
proof (induction "nat (imageWidth - pixelCounter s)" arbitrary: s)
  case 0
  then show ?case by simp
next
  case (Suc k)
  from callback_step [OF Suc.prems(1-3), of cv] obtain s1 where s1: "pixelTimerCallback cv s = Inr s1"
    "pixelCounter s1 = pixelCounter s + 1"
    "rowFinished s1 = (rowFinished s \<or> imageWidth \<le> pixelCounter s + 1)"
    "sameScan s s1"
    by blast
  have n: "nat (imageWidth - pixelCounter s) = Suc k" using Suc.hyps(2) by simp
  have k: "k = nat (imageWidth - pixelCounter s1)" using n s1(2) by simp
  have a: "awaitRowFinished cv s = awaitRowFinished cv s1"
    by (subst awaitRowFinished.simps) (simp add: Suc.prems(4) s1(1))
  have t: "ticks cv (Suc k) s = ticks cv k s1" by (simp add: s1(1) bind_fault_def)
  show ?case
  proof (cases "imageWidth \<le> pixelCounter s + 1")
    case True
    then have "rowFinished s1" using s1(3) by simp
    then have "awaitRowFinished cv s1 = Inr s1" by (subst awaitRowFinished.simps) simp
    moreover have "k = 0" using True k s1(2) by simp
    ultimately show ?thesis unfolding n a t by simp
  next
    case False
    then have "awaitRowFinished cv s1 = ticks cv (nat (imageWidth - pixelCounter s1)) s1"
      using Suc.prems s1 sameScan_rowsValid [OF s1(4)] k
      by (intro Suc.hyps(1)) simp_all
    then have "awaitRowFinished cv s1 = ticks cv k s1" using k by simp
    then show ?thesis unfolding n a t .
  qed
qed

section \<open>Segments, line pairs and the whole image\<close>

lemma transmitLineY_HW_begin: "transmitLineY_HW cv row s = awaitRowFinished cv (beginLineY row s)"
  by (simp add: transmitLineY_HW_def)

lemma transmitLineDiffRY_HW_begin:
  "transmitLineDiffRY_HW cv oddRow evenRow s = awaitRowFinished cv (beginLineDiffRY oddRow evenRow s)"
  by (simp add: transmitLineDiffRY_HW_def)

lemma transmitLineDiffBY_HW_begin:
  "transmitLineDiffBY_HW cv oddRow evenRow s = awaitRowFinished cv (beginLineDiffBY oddRow evenRow s)"
  by (simp add: transmitLineDiffBY_HW_def)

lemma segment_run:
  assumes "pixelCounter s = 0" "rowsValid s" "\<not> rowFinished s"
  shows "\<exists>s'. awaitRowFinished cv s = Inr s' \<and> ticks cv (nat imageWidth) s = Inr s'
    \<and> pixelCounter s' = imageWidth \<and> rowFinished s' \<and> sameScan s s'
    \<and> emitted s' = emitted s @ map (\<lambda>x. Tone (scanTone cv s x)) [0..imageWidth - 1] @ [TimerStop]
    \<and> accessed s' = accessed s @ concat (map (scanReads s) [0..imageWidth - 1])"
proof -
  have p: "0 \<le> pixelCounter s" "pixelCounter s < imageWidth"
    using assms(1) by (simp_all add: imageWidth_def)
  have n: "pixelCounter s + int (nat imageWidth) \<le> imageWidth"
    using assms(1) by (simp add: imageWidth_def)
  from ticks_run [OF p assms(2,3) n, of cv] obtain s' where s': "ticks cv (nat imageWidth) s = Inr s'"
    "pixelCounter s' = pixelCounter s + int (nat imageWidth)"
    "rowFinished s' = (imageWidth \<le> pixelCounter s + int (nat imageWidth))"
    "sameScan s s'"
    "emitted s' = emitted s @ map (\<lambda>x. Tone (scanTone cv s x))
         [pixelCounter s..pixelCounter s + int (nat imageWidth) - 1]
         @ (if imageWidth \<le> pixelCounter s + int (nat imageWidth) then [TimerStop] else [])"
    "accessed s' = accessed s @ concat (map (scanReads s)
         [pixelCounter s..pixelCounter s + int (nat imageWidth) - 1])"
    by blast
  have w: "int (nat imageWidth) = imageWidth" by (simp add: imageWidth_def)
  have "awaitRowFinished cv s = ticks cv (nat imageWidth) s"
    using await_ticks [OF p assms(2,3), of cv] assms(1) by simp
  then show ?thesis using s' unfolding assms(1) w by simp
qed

lemma transmitLineY_HW_run:
  assumes "0 \<le> row" "row < imageHeight"
  shows "\<exists>s'. transmitLineY_HW cv row s = Inr s' \<and> ticks cv (nat imageWidth) (beginLineY row s) = Inr s'
    \<and> rowFinished s'
    \<and> emitted s' = emitted s @ scanEvents (lumaTone cv row)
    \<and> accessed s' = accessed s @ rowReads row"
proof -
  define s0 where "s0 = beginLineY row s"
  have s0: "pixelCounter s0 = 0" "rowsValid s0" "\<not> rowFinished s0"
    "emitted s0 = emitted s @ [TimerStart pixelDuration]" "accessed s0 = accessed s"
    "scanTone cv s0 = lumaTone cv row" "scanReads s0 = (\<lambda>x. [(x, row)])"
    using assms
    by (auto simp: s0_def beginLineY_def esp_timer_start_periodic_def emit_def rowsValid_def
        scanTone_def scanReads_def)
  from segment_run [OF s0(1-3), of cv] show ?thesis
    unfolding transmitLineY_HW_begin s0_def [symmetric] s0(4-7)
    by (auto simp: scanEvents_def rowReads_def concat_map_singleton)
qed

lemma transmitLineDiffRY_HW_run:
  assumes "0 \<le> oddRow" "oddRow < imageHeight" "0 \<le> evenRow" "evenRow < imageHeight"
  shows "\<exists>s'. transmitLineDiffRY_HW cv oddRow evenRow s = Inr s'
    \<and> ticks cv (nat imageWidth) (beginLineDiffRY oddRow evenRow s) = Inr s'
    \<and> rowFinished s'
    \<and> emitted s' = emitted s @ scanEvents (diffRYTone cv oddRow evenRow)
    \<and> accessed s' = accessed s @ pairReads oddRow evenRow"
proof -
  define s0 where "s0 = beginLineDiffRY oddRow evenRow s"
  have s0: "pixelCounter s0 = 0" "rowsValid s0" "\<not> rowFinished s0"
    "emitted s0 = emitted s @ [TimerStart pixelDuration]" "accessed s0 = accessed s"
    "scanTone cv s0 = diffRYTone cv oddRow evenRow"
    "scanReads s0 = (\<lambda>x. [(x, oddRow), (x, evenRow)])"
    using assms
    by (auto simp: s0_def beginLineDiffRY_def esp_timer_start_periodic_def emit_def rowsValid_def
        scanTone_def scanReads_def)
  from segment_run [OF s0(1-3), of cv] show ?thesis
    unfolding transmitLineDiffRY_HW_begin s0_def [symmetric] s0(4-7)
    by (auto simp: scanEvents_def pairReads_def)
qed

lemma transmitLineDiffBY_HW_run:
  assumes "0 \<le> oddRow" "oddRow < imageHeight" "0 \<le> evenRow" "evenRow < imageHeight"
  shows "\<exists>s'. transmitLineDiffBY_HW cv oddRow evenRow s = Inr s'
    \<and> ticks cv (nat imageWidth) (beginLineDiffBY oddRow evenRow s) = Inr s'
    \<and> rowFinished s'
    \<and> emitted s' = emitted s @ scanEvents (diffBYTone cv oddRow evenRow)
    \<and> accessed s' = accessed s @ pairReads oddRow evenRow"
proof -
  define s0 where "s0 = beginLineDiffBY oddRow evenRow s"
  have s0: "pixelCounter s0 = 0" "rowsValid s0" "\<not> rowFinished s0"
    "emitted s0 = emitted s @ [TimerStart pixelDuration]" "accessed s0 = accessed s"
    "scanTone cv s0 = diffBYTone cv oddRow evenRow"
    "scanReads s0 = (\<lambda>x. [(x, oddRow), (x, evenRow)])"
    using assms
    by (auto simp: s0_def beginLineDiffBY_def esp_timer_start_periodic_def emit_def rowsValid_def
        scanTone_def scanReads_def)
  from segment_run [OF s0(1-3), of cv] show ?thesis
    unfolding transmitLineDiffBY_HW_begin s0_def [symmetric] s0(4-7)
    by (auto simp: scanEvents_def pairReads_def)
qed

lemma linePairs_run:
  assumes "0 \<le> pair" "numPairs * 2 \<le> imageHeight"
  shows "\<exists>s'. linePairs cv numPairs pair s = Inr s'
    \<and> emitted s' = emitted s @ concat (map (linePairEvents cv) [pair..numPairs - 1])
    \<and> accessed s' = accessed s @ concat (map linePairReads [pair..numPairs - 1])"
  using assms(1)
proof (induction "nat (numPairs - pair)" arbitrary: pair s)
  case 0
  then have "\<not> pair < numPairs" by simp
  then show ?case by (subst linePairs.simps) simp
next
  case (Suc k)
  then have lt: "pair < numPairs" by linarith
  have rows: "0 \<le> pair * 2" "pair * 2 < imageHeight" "0 \<le> pair * 2 + 1" "pair * 2 + 1 < imageHeight"
    using lt Suc.prems assms(2) by linarith+
  define s2 where "s2 = waitMicros porchDuration (ledcWriteTone 1500
      (waitMicros syncPulseDuration (ledcWriteTone 1200 s)))"
  have s2: "emitted s2 = emitted s @ [Tone 1200, Hold syncPulseDuration, Tone 1500, Hold porchDuration]"
    "accessed s2 = accessed s"
    by (simp_all add: s2_def waitMicros_def ledcWriteTone_def emit_def)
  from transmitLineY_HW_run [OF rows(1,2), of cv s2] obtain s3 where
    s3: "transmitLineY_HW cv (pair * 2) s2 = Inr s3"
      "emitted s3 = emitted s2 @ scanEvents (lumaTone cv (pair * 2))"
      "accessed s3 = accessed s2 @ rowReads (pair * 2)" by blast
  from transmitLineDiffRY_HW_run [OF rows, of cv s3] obtain s4 where
    s4: "transmitLineDiffRY_HW cv (pair * 2) (pair * 2 + 1) s3 = Inr s4"
      "emitted s4 = emitted s3 @ scanEvents (diffRYTone cv (pair * 2) (pair * 2 + 1))"
      "accessed s4 = accessed s3 @ pairReads (pair * 2) (pair * 2 + 1)" by blast
  from transmitLineDiffBY_HW_run [OF rows, of cv s4] obtain s5 where
    s5: "transmitLineDiffBY_HW cv (pair * 2) (pair * 2 + 1) s4 = Inr s5"
      "emitted s5 = emitted s4 @ scanEvents (diffBYTone cv (pair * 2) (pair * 2 + 1))"
      "accessed s5 = accessed s4 @ pairReads (pair * 2) (pair * 2 + 1)" by blast
  from transmitLineY_HW_run [OF rows(3,4), of cv s5] obtain s6 where
    s6: "transmitLineY_HW cv (pair * 2 + 1) s5 = Inr s6"
      "emitted s6 = emitted s5 @ scanEvents (lumaTone cv (pair * 2 + 1))"
      "accessed s6 = accessed s5 @ rowReads (pair * 2 + 1)" by blast
  have step: "linePairs cv numPairs pair s = linePairs cv numPairs (pair + 1) s6"
    by (subst linePairs.simps)
      (simp add: lt Let_def s2_def [symmetric] s3(1) s4(1) s5(1) s6(1) bind_fault_def)
  have "k = nat (numPairs - (pair + 1))" using Suc.hyps(2) by linarith
  moreover have "0 \<le> pair + 1" using Suc.prems by simp
  ultimately obtain s' where s': "linePairs cv numPairs (pair + 1) s6 = Inr s'"
    "emitted s' = emitted s6 @ concat (map (linePairEvents cv) [pair + 1..numPairs - 1])"
    "accessed s' = accessed s6 @ concat (map linePairReads [pair + 1..numPairs - 1])"
    using Suc.hyps(1) [of "pair + 1" s6] by blast
  have up: "[pair..numPairs - 1] = pair # [pair + 1..numPairs - 1]"
    using lt by (simp add: upto_rec1)
  have "emitted s' = emitted s @ concat (map (linePairEvents cv) [pair..numPairs - 1])"
    unfolding up s'(2) s6(2) s5(2) s4(2) s3(2) s2(1) by (simp add: linePairEvents_def)
  moreover have "accessed s' = accessed s @ concat (map linePairReads [pair..numPairs - 1])"
    unfolding up s'(3) s6(3) s5(3) s4(3) s3(3) s2(2) by (simp add: linePairReads_def)
  ultimately show ?case using step s'(1) by simp
qed

lemma transmitPD120Image_HW_run:
  "\<exists>s'. transmitPD120Image_HW cv s = Inr s'
    \<and> emitted s' = emitted s @ concat (map (linePairEvents cv) [0..imageHeight div 2 - 1]) @ [LedcStop]
    \<and> accessed s' = accessed s @ concat (map linePairReads [0..imageHeight div 2 - 1])"
proof -
  have "imageHeight div 2 * 2 \<le> imageHeight" by (simp add: imageHeight_def)
  from linePairs_run [OF _ this, of 0 cv s] obtain s1 where
    s1: "linePairs cv (imageHeight div 2) 0 s = Inr s1"
      "emitted s1 = emitted s @ concat (map (linePairEvents cv) [0..imageHeight div 2 - 1])"
      "accessed s1 = accessed s @ concat (map linePairReads [0..imageHeight div 2 - 1])"
    by auto
  show ?thesis
    by (simp add: transmitPD120Image_HW_def Let_def s1 bind_fault_def ledc_stop_def emit_def)
qed

lemma linePairEvents_unfold:
  "linePairEvents cv = (\<lambda>k. [Tone 1200, Hold 20000, Tone 1500, Hold 2080]
           @ scanEvents (lumaTone cv (k * 2))
           @ scanEvents (diffRYTone cv (k * 2) (k * 2 + 1))
           @ scanEvents (diffBYTone cv (k * 2) (k * 2 + 1))
           @ scanEvents (lumaTone cv (k * 2 + 1)))"
  by (rule ext) (simp add: linePairEvents_def syncPulseDuration_def porchDuration_def)

lemma begin_states:
  "pixelCounter (beginLineY row s) = 0" "\<not> rowFinished (beginLineY row s)"
  "emitted (beginLineY row s) = emitted s @ [TimerStart 190]"
  "scanTone cv (beginLineY row s) = lumaTone cv row"
  "rowsValid (beginLineY row s) \<longleftrightarrow> 0 \<le> row \<and> row < imageHeight"
  "pixelCounter (beginLineDiffRY oddRow evenRow s) = 0"
  "\<not> rowFinished (beginLineDiffRY oddRow evenRow s)"
  "emitted (beginLineDiffRY oddRow evenRow s) = emitted s @ [TimerStart 190]"
  "scanTone cv (beginLineDiffRY oddRow evenRow s) = diffRYTone cv oddRow evenRow"
  "rowsValid (beginLineDiffRY oddRow evenRow s)
     \<longleftrightarrow> 0 \<le> oddRow \<and> oddRow < imageHeight \<and> 0 \<le> evenRow \<and> evenRow < imageHeight"
  "pixelCounter (beginLineDiffBY oddRow evenRow s) = 0"
  "\<not> rowFinished (beginLineDiffBY oddRow evenRow s)"
  "emitted (beginLineDiffBY oddRow evenRow s) = emitted s @ [TimerStart 190]"
  "scanTone cv (beginLineDiffBY oddRow evenRow s) = diffBYTone cv oddRow evenRow"
  "rowsValid (beginLineDiffBY oddRow evenRow s)
     \<longleftrightarrow> 0 \<le> oddRow \<and> oddRow < imageHeight \<and> 0 \<le> evenRow \<and> evenRow < imageHeight"
  by (auto simp: beginLineY_def beginLineDiffRY_def beginLineDiffBY_def
      esp_timer_start_periodic_def emit_def rowsValid_def scanTone_def
      pixelDuration_def scanDuration_def imageWidth_def)

lemma scanEvents_640:
  "scanEvents tone = TimerStart 190 # map (\<lambda>x. Tone (tone x)) [0..639] @ [TimerStop]"
  by (simp add: scanEvents_def pixelDuration_def scanDuration_def imageWidth_def)

text \<open>Fewer than 640 firings after the start of a segment: that many tones, flag not set.\<close>

lemma early_ticks:
  assumes "pixelCounter s0 = 0" "rowsValid s0" "\<not> rowFinished s0" "n < 640"
  shows "\<exists>sn. ticks cv n s0 = Inr sn \<and> \<not> rowFinished sn
    \<and> emitted sn = emitted s0 @ map (\<lambda>x. Tone (scanTone cv s0 x)) [0..int n - 1]"
proof -
  have p: "0 \<le> pixelCounter s0" "pixelCounter s0 < imageWidth"
    using assms(1) by (simp_all add: imageWidth_def)
  have n: "pixelCounter s0 + int n \<le> imageWidth" using assms(1,4) by (simp add: imageWidth_def)
  have lt: "\<not> imageWidth \<le> pixelCounter s0 + int n"
    using assms(1,4) by (simp add: imageWidth_def)
  from ticks_run [OF p assms(2,3) n, of cv] show ?thesis unfolding assms(1) using lt
    by (auto simp: assms(1))
qed

lemma linePairReads_in_surface:
  assumes "0 \<le> k" "k \<le> 247" "p \<in> set (linePairReads k)"
  shows "inSurface p"
  using assms
  by (auto simp: linePairReads_def rowReads_def pairReads_def inSurface_def
      imageWidth_def imageHeight_def)

lemma all_reads_in_surface:
  "\<forall>p \<in> set (concat (map linePairReads [0..247])). inSurface p"
  by (auto intro: linePairReads_in_surface)

lemma first_read: "(0, 0) \<in> set (concat (map linePairReads [0..247]))"
proof -
  have "(0, 0) \<in> set (rowReads 0)" by (simp add: rowReads_def imageWidth_def)
  then have "(0, 0) \<in> set (linePairReads 0)" by (simp add: linePairReads_def)
  moreover have "(0::int) \<in> set [0..247]" by simp
  ultimately show ?thesis unfolding set_concat set_map by blast
qed

lemma rgb565_red: "rgb565 0xF800 = (255, 0, 0)"
  by (simp add: rgb565_def Let_def)

lemma convertToSSTV_red:
  "convertToSSTV 255 0 0 = (9993585 / 131072, 8352715 / 65536, - (2818191 / 65536))"
  by (simp add: convertToSSTV_def lumaOf_def fp_eval)

lemma averageDiff_red: "averageDiff (8352715 / 65536) (8352715 / 65536) = 8352715 / 65536"
  by (simp add: averageDiff_def fp_eval)

lemma mapDiffToFrequency_red: "mapDiffToFrequency (8352715 / 65536) = Inr 2301"
  by (simp add: mapDiffToFrequency_def cast_uint32_def bind_fault_def fp_eval)

lemma diffRYTone_red: "diffRYTone (\<lambda>i. 0xF800) 0 1 0 = 2301"
  by (simp add: diffRYTone_def pixelAt_def rgb565_red convertToSSTV_red averageDiff_red
      mapDiffToFrequency_red freqOf_def)

text \<open>
  For a sample that is not an integer the two roundings can lose a unit: \<open>36.65625\<close> is a
  \<^verbatim>\<open>float\<close>, \<open>36.65625 * 800 / 255\<close> is exactly 115, and the source returns
  \<open>1500 + 114\<close>.
\<close>

lemma mapYToFrequency_noninteger: "mapYToFrequency (1173 / 32) = Inr 1614"
  by (simp add: mapYToFrequency_def cast_uint32_def bind_fault_def fp_eval)

lemma mapYToFrequency_mono:
  assumes "0 \<le> Y1" "Y1 \<le> Y2" "Y2 \<le> 255"
  shows "\<exists>f1 f2. mapYToFrequency Y1 = Inr f1 \<and> mapYToFrequency Y2 = Inr f2 \<and> f1 \<le> f2"
proof -
  have y1: "0 \<le> Y1" "Y1 \<le> 255" and y2: "0 \<le> Y2" "Y2 \<le> 255" using assms by linarith+
  have "\<lfloor>dmul (ddiv Y1 255) 800\<rfloor> \<le> \<lfloor>dmul (ddiv Y2 255) 800\<rfloor>"
    by (intro floor_mono mapY_arg_mono assms(2))
  then show ?thesis
    using mapYToFrequency_eq [OF mapY_arg_range [OF y1]] mapYToFrequency_eq [OF mapY_arg_range [OF y2]]
    by simp
qed

lemma mapDiffToFrequency_mono:
  assumes "- 128 \<le> D1" "D1 \<le> D2" "D2 \<le> 127"
  shows "\<exists>f1 f2. mapDiffToFrequency D1 = Inr f1 \<and> mapDiffToFrequency D2 = Inr f2 \<and> f1 \<le> f2"
proof -
  have d1: "- 128 \<le> D1" "D1 \<le> 127" and d2: "- 128 \<le> D2" "D2 \<le> 127" using assms by linarith+
  note r1 = mapDiff_arg_range [OF d1]
  note r2 = mapDiff_arg_range [OF d2]
  have l1: "dmul (ddiv (dadd D1 128) 255) 800 < 802" using r1(2) by linarith
  have l2: "dmul (ddiv (dadd D2 128) 255) 800 < 802" using r2(2) by linarith
  have "\<lfloor>dmul (ddiv (dadd D1 128) 255) 800\<rfloor> \<le> \<lfloor>dmul (ddiv (dadd D2 128) 255) 800\<rfloor>"
    by (intro floor_mono mapDiff_arg_mono assms(2))
  then show ?thesis
    using mapDiffToFrequency_eq [OF r1(1) l1] mapDiffToFrequency_eq [OF r2(1) l2] by simp
qed

lemma convertToSSTV_gray:
  assumes "0 \<le> c" "c \<le> 255"
  shows "convertToSSTV c c c = (of_int c, 0, 0)"
  unfolding convertToSSTV_def Let_def lumaOf_gray [OF assms]
  by (simp add: fsub_def dmul_def)

lemma rgb565_white: "rgb565 0xFFFF = (255, 255, 255)"
  by (simp add: rgb565_def Let_def)

lemma convertToSSTV_white: "convertToSSTV 255 255 255 = (255, 0, 0)"
  using convertToSSTV_gray [of 255] by simp

lemma averageDiff_zero: "averageDiff 0 0 = 0"
  by (simp add: averageDiff_def fadd_def ddiv_def)

lemma white_lumaTone:
  assumes "cv (row * imageWidth + x) = 0xFFFF"
  shows "lumaTone cv row x = 2300"
proof -
  have y: "mapYToFrequency 255 = Inr 2300" using mapYToFrequency_int [of 255] by simp
  show ?thesis
    by (simp add: lumaTone_def pixelAt_def assms rgb565_white convertToSSTV_white y freqOf_def)
qed

lemma white_diffTones:
  assumes "cv (oddRow * imageWidth + x) = 0xFFFF" "cv (evenRow * imageWidth + x) = 0xFFFF"
  shows "diffRYTone cv oddRow evenRow x = 1901" "diffBYTone cv oddRow evenRow x = 1901"
proof -
  show "diffRYTone cv oddRow evenRow x = 1901"
    by (simp add: diffRYTone_def pixelAt_def assms rgb565_white convertToSSTV_white
        averageDiff_zero mapDiffToFrequency_0 freqOf_def)
  show "diffBYTone cv oddRow evenRow x = 1901"
    by (simp add: diffBYTone_def pixelAt_def assms rgb565_white convertToSSTV_white
        averageDiff_zero mapDiffToFrequency_0 freqOf_def)
qed

lemma scanEvents_cong:
  assumes "\<And>x. 0 \<le> x \<Longrightarrow> x \<le> 639 \<Longrightarrow> tone x = tone' x"
  shows "scanEvents tone = scanEvents tone'"
  using assms by (simp add: scanEvents_def imageWidth_def)

lemma white_pair_events:
  assumes white: "\<forall>i. 0 \<le> i \<and> i < imageWidth * imageHeight \<longrightarrow> cv i = 0xFFFF"
    and k: "0 \<le> k" "k \<le> 247"
  shows "linePairEvents cv k = [Tone 1200, Hold 20000, Tone 1500, Hold 2080]
           @ scanEvents (\<lambda>x. 2300) @ scanEvents (\<lambda>x. 1901)
           @ scanEvents (\<lambda>x. 1901) @ scanEvents (\<lambda>x. 2300)"
proof -
  have w: "cv (row * imageWidth + x) = 0xFFFF"
    if "0 \<le> x" "x \<le> 639" "row = k * 2 \<or> row = k * 2 + 1" for x row
  proof -
    have "0 \<le> row" "row < imageHeight" using that(3) k by (auto simp: imageHeight_def)
    moreover have "x < imageWidth" using that(2) by (simp add: imageWidth_def)
    ultimately show ?thesis using white index_in_canvas [of x row] that(1) by simp
  qed
  have a: "scanEvents (lumaTone cv (k * 2)) = scanEvents (\<lambda>x. 2300)"
    by (rule scanEvents_cong) (rule white_lumaTone, rule w, simp_all)
  have b: "scanEvents (diffRYTone cv (k * 2) (k * 2 + 1)) = scanEvents (\<lambda>x. 1901)"
    by (rule scanEvents_cong) (rule white_diffTones; rule w; simp)
  have c: "scanEvents (diffBYTone cv (k * 2) (k * 2 + 1)) = scanEvents (\<lambda>x. 1901)"
    by (rule scanEvents_cong) (rule white_diffTones; rule w; simp)
  have d: "scanEvents (lumaTone cv (k * 2 + 1)) = scanEvents (\<lambda>x. 2300)"
    by (rule scanEvents_cong) (rule white_lumaTone, rule w, simp_all)
  show ?thesis unfolding linePairEvents_unfold a b c d ..
qed

section \<open>The calibration header\<close>

text \<open>
  C2, as the source has it: every call of \<open>transmitCalibrationHeader\<close> appends exactly
  thirteen tone pulses to the output and changes nothing else: 1900 Hz for 300000 us,
  1200 Hz for 10000 us, 1900 Hz for 300000 us, 1200 Hz for 30000 us, the seven VIS bits
  of code 95 at 1100, 1100, 1100, 1100, 1100, 1300, 1100 Hz for 30000 us each, the parity
  pulse at 1300 Hz for 30000 us, and the stop pulse at 1200 Hz for 30000 us. The function
  has no access to the canvas, so the pulses cannot depend on the pixels.
\<close>

theorem calibration_header_pulses:
  "transmitCalibrationHeader s =
     s\<lparr>emitted := emitted s @ pulseEvents
        [(1900, 300000), (1200, 10000), (1900, 300000), (1200, 30000),
         (1100, 30000), (1100, 30000), (1100, 30000), (1100, 30000), (1100, 30000),
         (1300, 30000), (1100, 30000), (1300, 30000), (1200, 30000)]\<rparr>
   \<and> length [(1900, 300000), (1200, 10000), (1900, 300000), (1200, 30000),
         (1100, 30000), (1100, 30000), (1100, 30000), (1100, 30000), (1100, 30000),
         (1300, 30000), (1100, 30000), (1300, 30000), (1200, 30000 :: int) :: int \<times> int] = 13"
  by (simp add: transmitCalibrationHeader_def tonePulse_def delayMicroseconds_def
      ledcWriteTone_def emit_def pulseEvents_def)

text \<open>
  The parity pulse of the claim, 1300 us long, is not what the header emits: the source
  holds the parity tone for 30000 us like every other VIS bit.
\<close>

theorem calibration_header_parity_counterexample:
  "emitted (transmitCalibrationHeader initialState) \<noteq> pulseEvents
        [(1900, 300000), (1200, 10000), (1900, 300000), (1200, 30000),
         (1100, 30000), (1100, 30000), (1100, 30000), (1100, 30000), (1100, 30000),
         (1300, 30000), (1100, 30000), (1300, 1300), (1200, 30000)]"
  by (simp add: transmitCalibrationHeader_def tonePulse_def delayMicroseconds_def
      ledcWriteTone_def emit_def pulseEvents_def initialState_def)


section \<open>The line-pair sequence\<close>

text \<open>
  C1: a full transmission emits, for the pair indices 0 to 247 in increasing order and
  for nothing else, the sync tone of 1200 Hz held 20000 us, the porch tone of 1500 Hz held
  2080 us, and then four complete scan segments: luminance of row 2k, red difference of
  rows 2k and 2k+1, blue difference of rows 2k and 2k+1, luminance of row 2k+1. Each
  segment is the timer start, one tone per column from 0 to 639, and the timer stop.
  After the last pair the tone generator is stopped.
\<close>

theorem pd120_line_pair_sequence:
  "\<exists>s'. transmitPD120Image_HW cv s = Inr s'
     \<and> emitted s' = emitted s
         @ concat (map (\<lambda>k. [Tone 1200, Hold 20000, Tone 1500, Hold 2080]
                          @ scanEvents (lumaTone cv (k * 2))
                          @ scanEvents (diffRYTone cv (k * 2) (k * 2 + 1))
                          @ scanEvents (diffBYTone cv (k * 2) (k * 2 + 1))
                          @ scanEvents (lumaTone cv (k * 2 + 1)))
                   [0..247])
         @ [LedcStop]
     \<and> length [0..247 :: int] = 248
     \<and> (\<forall>tone. scanEvents tone
            = TimerStart 190 # map (\<lambda>x. Tone (tone x)) [0..639] @ [TimerStop])"
proof -
  have h: "imageHeight div 2 - 1 = 247" by (simp add: imageHeight_def)
  have sc: "\<forall>tone. scanEvents tone
            = TimerStart 190 # map (\<lambda>x. Tone (tone x)) [0..639] @ [TimerStop]"
    by (simp add: scanEvents_def pixelDuration_def scanDuration_def imageWidth_def)
  from transmitPD120Image_HW_run [of cv s] show ?thesis
    unfolding h linePairEvents_unfold using sc by auto
qed

section \<open>A scan segment takes 640 ticks\<close>

text \<open>
  C3: a begin-segment call for rows of the image fires the tick handler exactly 640 times:
  the call returns the state reached by 640 firings of \<open>pixelTimerCallback\<close>, each firing
  has written exactly one tone, and after any smaller number \<open>n\<close> of firings \<open>n\<close> tones have
  been written and \<open>rowFinished\<close> is still false. The flag is set, and the timer stopped,
  once, by the 640th firing. This holds for \<open>transmitLineY_HW\<close>,
  \<open>transmitLineDiffRY_HW\<close> and \<open>transmitLineDiffBY_HW\<close>.
\<close>

theorem scan_segment_640_ticks:
  assumes "0 \<le> row" "row < imageHeight"
    and "0 \<le> oddRow" "oddRow < imageHeight" "0 \<le> evenRow" "evenRow < imageHeight"
    and "n < 640"
  shows "(\<exists>s'. transmitLineY_HW cv row s = Inr s'
            \<and> ticks cv 640 (beginLineY row s) = Inr s' \<and> rowFinished s'
            \<and> emitted s' = emitted s
                 @ TimerStart 190 # map (\<lambda>x. Tone (lumaTone cv row x)) [0..639] @ [TimerStop])
       \<and> (\<exists>sn. ticks cv n (beginLineY row s) = Inr sn \<and> \<not> rowFinished sn
            \<and> emitted sn = emitted s
                 @ TimerStart 190 # map (\<lambda>x. Tone (lumaTone cv row x)) [0..int n - 1])
       \<and> (\<exists>s'. transmitLineDiffRY_HW cv oddRow evenRow s = Inr s'
            \<and> ticks cv 640 (beginLineDiffRY oddRow evenRow s) = Inr s' \<and> rowFinished s'
            \<and> emitted s' = emitted s
                 @ TimerStart 190 # map (\<lambda>x. Tone (diffRYTone cv oddRow evenRow x)) [0..639]
                 @ [TimerStop])
       \<and> (\<exists>sn. ticks cv n (beginLineDiffRY oddRow evenRow s) = Inr sn \<and> \<not> rowFinished sn
            \<and> emitted sn = emitted s
                 @ TimerStart 190 # map (\<lambda>x. Tone (diffRYTone cv oddRow evenRow x)) [0..int n - 1])
       \<and> (\<exists>s'. transmitLineDiffBY_HW cv oddRow evenRow s = Inr s'
            \<and> ticks cv 640 (beginLineDiffBY oddRow evenRow s) = Inr s' \<and> rowFinished s'
            \<and> emitted s' = emitted s
                 @ TimerStart 190 # map (\<lambda>x. Tone (diffBYTone cv oddRow evenRow x)) [0..639]
                 @ [TimerStop])
       \<and> (\<exists>sn. ticks cv n (beginLineDiffBY oddRow evenRow s) = Inr sn \<and> \<not> rowFinished sn
            \<and> emitted sn = emitted s
                 @ TimerStart 190 # map (\<lambda>x. Tone (diffBYTone cv oddRow evenRow x)) [0..int n - 1])"
proof -
  have w: "nat imageWidth = 640" by (simp add: imageWidth_def)
  have y: "rowsValid (beginLineY row s)" using assms(1,2) by (simp add: begin_states)
  have d: "rowsValid (beginLineDiffRY oddRow evenRow s)" "rowsValid (beginLineDiffBY oddRow evenRow s)"
    using assms(3-6) by (simp_all add: begin_states)
  have a1: "\<exists>s'. transmitLineY_HW cv row s = Inr s'
            \<and> ticks cv 640 (beginLineY row s) = Inr s' \<and> rowFinished s'
            \<and> emitted s' = emitted s
                 @ TimerStart 190 # map (\<lambda>x. Tone (lumaTone cv row x)) [0..639] @ [TimerStop]"
    using transmitLineY_HW_run [OF assms(1,2), of cv s] unfolding w scanEvents_640 by auto
  have a2: "\<exists>s'. transmitLineDiffRY_HW cv oddRow evenRow s = Inr s'
            \<and> ticks cv 640 (beginLineDiffRY oddRow evenRow s) = Inr s' \<and> rowFinished s'
            \<and> emitted s' = emitted s
                 @ TimerStart 190 # map (\<lambda>x. Tone (diffRYTone cv oddRow evenRow x)) [0..639]
                 @ [TimerStop]"
    using transmitLineDiffRY_HW_run [OF assms(3-6), of cv s] unfolding w scanEvents_640 by auto
  have a3: "\<exists>s'. transmitLineDiffBY_HW cv oddRow evenRow s = Inr s'
            \<and> ticks cv 640 (beginLineDiffBY oddRow evenRow s) = Inr s' \<and> rowFinished s'
            \<and> emitted s' = emitted s
                 @ TimerStart 190 # map (\<lambda>x. Tone (diffBYTone cv oddRow evenRow x)) [0..639]
                 @ [TimerStop]"
    using transmitLineDiffBY_HW_run [OF assms(3-6), of cv s] unfolding w scanEvents_640 by auto
  have b1: "\<exists>sn. ticks cv n (beginLineY row s) = Inr sn \<and> \<not> rowFinished sn
            \<and> emitted sn = emitted s
                 @ TimerStart 190 # map (\<lambda>x. Tone (lumaTone cv row x)) [0..int n - 1]"
    using early_ticks [OF begin_states(1) y begin_states(2) assms(7), of cv]
    by (simp add: begin_states)
  have b2: "\<exists>sn. ticks cv n (beginLineDiffRY oddRow evenRow s) = Inr sn \<and> \<not> rowFinished sn
            \<and> emitted sn = emitted s
                 @ TimerStart 190 # map (\<lambda>x. Tone (diffRYTone cv oddRow evenRow x)) [0..int n - 1]"
    using early_ticks [OF begin_states(6) d(1) begin_states(7) assms(7), of cv]
    by (simp add: begin_states)
  have b3: "\<exists>sn. ticks cv n (beginLineDiffBY oddRow evenRow s) = Inr sn \<and> \<not> rowFinished sn
            \<and> emitted sn = emitted s
                 @ TimerStart 190 # map (\<lambda>x. Tone (diffBYTone cv oddRow evenRow x)) [0..int n - 1]"
    using early_ticks [OF begin_states(11) d(2) begin_states(12) assms(7), of cv]
    by (simp add: begin_states)
  show ?thesis using a1 b1 a2 b2 a3 b3 by blast
qed

theorem scan_segment_640_ticks_witness:
  "(0::int) \<le> 0 \<and> 0 < imageHeight \<and> (0::int) \<le> 1 \<and> 1 < imageHeight \<and> (639::nat) < 640
   \<and> (\<exists>s'. transmitLineY_HW (\<lambda>i. 0) 0 initialState = Inr s' \<and> rowFinished s')
   \<and> (\<exists>sn. ticks (\<lambda>i. 0) 639 (beginLineDiffRY 0 1 initialState) = Inr sn \<and> \<not> rowFinished sn)"
proof -
  have h: "(0::int) \<le> 0" "0 < imageHeight" "(0::int) \<le> 1" "1 < imageHeight" "(639::nat) < 640"
    by (simp_all add: imageHeight_def)
  from scan_segment_640_ticks [OF h(1,2) h(1,2) h(3,4) h(5), of "\<lambda>i. 0" initialState]
  show ?thesis using h by blast
qed

section \<open>The frequency formulas\<close>




section \<open>The range of the picture tones\<close>

text \<open>
  C5, as the source has it: in every state in which a segment fires the callback (column
  counter inside the row, rows inside the image), for every canvas, the callback succeeds
  and the one frequency it writes lies in \<open>[1500, 2301]\<close>; in a luminance segment it lies
  in \<open>[1500, 2300]\<close>. The source does not clamp, and a difference segment over saturated
  red or blue reaches 2301.
\<close>

theorem scan_tone_range:
  assumes "0 \<le> pixelCounter s" "pixelCounter s < imageWidth" "rowsValid s"
  shows "\<exists>s' f. pixelTimerCallback cv s = Inr s'
     \<and> emitted s' = emitted s @ Tone f # (if imageWidth \<le> pixelCounter s + 1 then [TimerStop] else [])
     \<and> 1500 \<le> f \<and> f \<le> 2301
     \<and> (currentSegment s = SEG_Y \<longrightarrow> f \<le> 2300)"
proof -
  from callback_step [OF assms, of cv] obtain s' where
    s': "pixelTimerCallback cv s = Inr s'"
      "emitted s' = emitted s @ Tone (scanTone cv s (pixelCounter s))
         # (if imageWidth \<le> pixelCounter s + 1 then [TimerStop] else [])"
    by blast
  note r = scanTone_range [of cv s "pixelCounter s"]
  have "currentSegment s = SEG_Y \<longrightarrow> scanTone cv s (pixelCounter s) \<le> 2300"
    using lumaTone_works [of cv "pixelCounter s" "currentRow s"] by (simp add: scanTone_def)
  then show ?thesis using s' r by blast
qed

theorem scan_tone_range_witness:
  "0 \<le> pixelCounter (beginLineY 0 initialState)
   \<and> pixelCounter (beginLineY 0 initialState) < imageWidth
   \<and> rowsValid (beginLineY 0 initialState)
   \<and> currentSegment (beginLineY 0 initialState) = SEG_Y
   \<and> (\<exists>s' f. pixelTimerCallback (\<lambda>i. 0xF800) (beginLineY 0 initialState) = Inr s'
        \<and> emitted s' = emitted (beginLineY 0 initialState) @ [Tone f]
        \<and> 1500 \<le> f \<and> f \<le> 2300)
   \<and> 0 \<le> pixelCounter (beginLineDiffRY 0 1 initialState)
   \<and> pixelCounter (beginLineDiffRY 0 1 initialState) < imageWidth
   \<and> rowsValid (beginLineDiffRY 0 1 initialState)
   \<and> (\<exists>s' f. pixelTimerCallback (\<lambda>i. 0xF800) (beginLineDiffRY 0 1 initialState) = Inr s'
        \<and> emitted s' = emitted (beginLineDiffRY 0 1 initialState) @ [Tone f]
        \<and> 1500 \<le> f \<and> f \<le> 2301)"
proof -
  have y: "0 \<le> pixelCounter (beginLineY 0 initialState)"
    "pixelCounter (beginLineY 0 initialState) < imageWidth"
    "rowsValid (beginLineY 0 initialState)"
    by (simp_all add: begin_states imageWidth_def imageHeight_def)
  have seg: "currentSegment (beginLineY 0 initialState) = SEG_Y"
    by (simp add: beginLineY_def esp_timer_start_periodic_def emit_def)
  have ny: "\<not> imageWidth \<le> pixelCounter (beginLineY 0 initialState) + 1"
    by (simp add: begin_states imageWidth_def)
  have a: "\<exists>s' f. pixelTimerCallback (\<lambda>i. 0xF800) (beginLineY 0 initialState) = Inr s'
        \<and> emitted s' = emitted (beginLineY 0 initialState) @ [Tone f]
        \<and> 1500 \<le> f \<and> f \<le> 2300"
    using scan_tone_range [OF y, of "\<lambda>i. 0xF800"] seg ny by auto
  have h: "0 \<le> pixelCounter (beginLineDiffRY 0 1 initialState)"
    "pixelCounter (beginLineDiffRY 0 1 initialState) < imageWidth"
    "rowsValid (beginLineDiffRY 0 1 initialState)"
    by (simp_all add: begin_states imageWidth_def imageHeight_def)
  have nh: "\<not> imageWidth \<le> pixelCounter (beginLineDiffRY 0 1 initialState) + 1"
    by (simp add: begin_states imageWidth_def)
  have b: "\<exists>s' f. pixelTimerCallback (\<lambda>i. 0xF800) (beginLineDiffRY 0 1 initialState) = Inr s'
        \<and> emitted s' = emitted (beginLineDiffRY 0 1 initialState) @ [Tone f]
        \<and> 1500 \<le> f \<and> f \<le> 2301"
    using scan_tone_range [OF h, of "\<lambda>i. 0xF800"] nh by auto
  show ?thesis using y seg a h b by blast
qed

text \<open>
  The first tick of the red-difference segment of rows 0 and 1 on a canvas of pure red
  (\<open>0xF800\<close>) writes 2301 Hz, above the 2300 of the claim.
\<close>

theorem red_canvas_tone_counterexample:
  "map_sum id emitted (pixelTimerCallback (\<lambda>i. 0xF800) (beginLineDiffRY 0 1 initialState))
     = Inr [TimerStart 190, Tone 2301] \<and> \<not> (2301 :: int) \<le> 2300"
proof -
  let ?s = "beginLineDiffRY 0 1 initialState"
  have h: "0 \<le> pixelCounter ?s" "pixelCounter ?s < imageWidth" "rowsValid ?s"
    by (simp_all add: begin_states imageWidth_def imageHeight_def)
  from callback_step [OF h, of "\<lambda>i. 0xF800"] obtain s' where
    s': "pixelTimerCallback (\<lambda>i. 0xF800) ?s = Inr s'"
      "emitted s' = emitted ?s @ Tone (scanTone (\<lambda>i. 0xF800) ?s (pixelCounter ?s))
         # (if imageWidth \<le> pixelCounter ?s + 1 then [TimerStop] else [])"
    by blast
  have "emitted s' = [TimerStart 190, Tone 2301]"
    unfolding s'(2) by (simp add: begin_states diffRYTone_red initialState_def imageWidth_def)
  then show ?thesis by (simp add: s'(1))
qed

section \<open>End points and monotonicity of the frequency maps\<close>

text \<open>
  C6: \<open>mapYToFrequency\<close> is 1500 at 0 and 2300 at 255 and does not decrease on
  \<open>[0, 255]\<close>; \<open>mapDiffToFrequency\<close> is 1500 at -128 and 2300 at 127 and does not decrease
  on \<open>[-128, 127]\<close>. The arguments range over all rationals of the interval, so over all
  \<^verbatim>\<open>float\<close> values in it.
\<close>

theorem frequency_mapping_endpoints_monotone:
  assumes "0 \<le> Y1" "Y1 \<le> Y2" "Y2 \<le> 255" "- 128 \<le> D1" "D1 \<le> D2" "D2 \<le> 127"
  shows "mapYToFrequency 0 = Inr 1500 \<and> mapYToFrequency 255 = Inr 2300
    \<and> (\<exists>f1 f2. mapYToFrequency Y1 = Inr f1 \<and> mapYToFrequency Y2 = Inr f2 \<and> f1 \<le> f2)
    \<and> mapDiffToFrequency (- 128) = Inr 1500 \<and> mapDiffToFrequency 127 = Inr 2300
    \<and> (\<exists>g1 g2. mapDiffToFrequency D1 = Inr g1 \<and> mapDiffToFrequency D2 = Inr g2 \<and> g1 \<le> g2)"
proof -
  have "mapYToFrequency 0 = Inr 1500" using mapYToFrequency_int [of 0] by simp
  moreover have "mapYToFrequency 255 = Inr 2300" using mapYToFrequency_int [of 255] by simp
  moreover have "mapDiffToFrequency (- 128) = Inr 1500" using mapDiffToFrequency_int [of "- 128"] by simp
  moreover have "mapDiffToFrequency 127 = Inr 2300" using mapDiffToFrequency_int [of 127] by simp
  ultimately show ?thesis
    using mapYToFrequency_mono [OF assms(1-3)] mapDiffToFrequency_mono [OF assms(4-6)] by blast
qed

theorem frequency_mapping_endpoints_monotone_witness:
  "(0::rat) \<le> 4 \<and> (4::rat) \<le> 200 \<and> (200::rat) \<le> 255
   \<and> - 128 \<le> (- 5 :: rat) \<and> (- 5 :: rat) \<le> 7 \<and> (7::rat) \<le> 127
   \<and> mapYToFrequency 0 = Inr 1500 \<and> mapYToFrequency 255 = Inr 2300
   \<and> (\<exists>f1 f2. mapYToFrequency 4 = Inr f1 \<and> mapYToFrequency 200 = Inr f2 \<and> f1 \<le> f2)
   \<and> mapDiffToFrequency (- 128) = Inr 1500 \<and> mapDiffToFrequency 127 = Inr 2300
   \<and> (\<exists>g1 g2. mapDiffToFrequency (- 5) = Inr g1 \<and> mapDiffToFrequency 7 = Inr g2 \<and> g1 \<le> g2)"
  using frequency_mapping_endpoints_monotone [of 4 200 "- 5" 7] by simp

section \<open>The white surface\<close>

text \<open>
  C7, as the source has it: on a surface whose every pixel is \<open>0xFFFF\<close> (RGB8 255, 255,
  255) every tick of a luminance segment writes 2300 Hz and every tick of a difference
  segment writes 1901 Hz, that is 1500 + 401, where 401 is the integer part of
  128 / 255 * 800 = 401.57.
\<close>

theorem white_surface_tones:
  assumes "\<forall>i. 0 \<le> i \<and> i < imageWidth * imageHeight \<longrightarrow> cv i = 0xFFFF"
  shows "\<exists>s'. transmitPD120Image_HW cv s = Inr s'
     \<and> emitted s' = emitted s
         @ concat (map (\<lambda>k. [Tone 1200, Hold 20000, Tone 1500, Hold 2080]
                          @ scanEvents (\<lambda>x. 2300) @ scanEvents (\<lambda>x. 1901)
                          @ scanEvents (\<lambda>x. 1901) @ scanEvents (\<lambda>x. 2300))
                   [0..247])
         @ [LedcStop]
     \<and> 1901 = 1500 + \<lfloor>128 / 255 * 800 :: rat\<rfloor>"
proof -
  have h: "imageHeight div 2 - 1 = 247" by (simp add: imageHeight_def)
  have m: "map (linePairEvents cv) [0..247]
      = map (\<lambda>k. [Tone 1200, Hold 20000, Tone 1500, Hold 2080]
                          @ scanEvents (\<lambda>x. 2300) @ scanEvents (\<lambda>x. 1901)
                          @ scanEvents (\<lambda>x. 1901) @ scanEvents (\<lambda>x. 2300)) [0..247]"
    by (rule map_cong [OF refl]) (simp add: white_pair_events [OF assms])
  have f: "1901 = 1500 + \<lfloor>128 / 255 * 800 :: rat\<rfloor>" by (simp add: floor_rat_numeral)
  from transmitPD120Image_HW_run [of cv s] show ?thesis unfolding h m using f by blast
qed

theorem white_surface_tones_witness:
  "(\<exists>s'. transmitPD120Image_HW (\<lambda>i. 0xFFFF) initialState = Inr s'
     \<and> emitted s' = concat (map (\<lambda>k. [Tone 1200, Hold 20000, Tone 1500, Hold 2080]
                          @ scanEvents (\<lambda>x. 2300) @ scanEvents (\<lambda>x. 1901)
                          @ scanEvents (\<lambda>x. 1901) @ scanEvents (\<lambda>x. 2300))
                   [0..247])
         @ [LedcStop])"
proof -
  have h: "\<forall>i. 0 \<le> i \<and> i < imageWidth * imageHeight \<longrightarrow> (\<lambda>i. 0xFFFF :: 16 word) i = 0xFFFF"
    by simp
  have e: "emitted initialState = []" by (simp add: initialState_def)
  from white_surface_tones [OF h, of initialState] obtain s' where
    "transmitPD120Image_HW (\<lambda>i. 0xFFFF) initialState = Inr s'"
    "emitted s' = emitted initialState
         @ concat (map (\<lambda>k. [Tone 1200, Hold 20000, Tone 1500, Hold 2080]
                          @ scanEvents (\<lambda>x. 2300) @ scanEvents (\<lambda>x. 1901)
                          @ scanEvents (\<lambda>x. 1901) @ scanEvents (\<lambda>x. 2300))
                   [0..247])
         @ [LedcStop]"
    by blast
  then show ?thesis unfolding e append_Nil by blast
qed

text \<open>
  The first tick of the red-difference segment of rows 0 and 1 on the white canvas writes
  1901 Hz; rounding 401.57 to the nearest integer, as the claim's formula does, gives 1902.
\<close>

theorem white_difference_tone_counterexample:
  "map_sum id emitted (pixelTimerCallback (\<lambda>i. 0xFFFF) (beginLineDiffRY 0 1 initialState))
     = Inr [TimerStart 190, Tone 1901]
   \<and> (1901 :: int) \<noteq> 1500 + round (128 / 255 * 800 :: rat)"
proof -
  let ?s = "beginLineDiffRY 0 1 initialState"
  have h: "0 \<le> pixelCounter ?s" "pixelCounter ?s < imageWidth" "rowsValid ?s"
    by (simp_all add: begin_states imageWidth_def imageHeight_def)
  from callback_step [OF h, of "\<lambda>i. 0xFFFF"] obtain s' where
    s': "pixelTimerCallback (\<lambda>i. 0xFFFF) ?s = Inr s'"
      "emitted s' = emitted ?s @ Tone (scanTone (\<lambda>i. 0xFFFF) ?s (pixelCounter ?s))
         # (if imageWidth \<le> pixelCounter ?s + 1 then [TimerStop] else [])"
    by blast
  have "emitted s' = [TimerStart 190, Tone 1901]"
    unfolding s'(2) by (simp add: begin_states white_diffTones initialState_def imageWidth_def)
  moreover have "round (128 / 255 * 800 :: rat) = 402" by (simp add: round_def floor_rat_numeral)
  ultimately show ?thesis by (simp add: s'(1))
qed

section \<open>Gray pixels and the luminance bound\<close>

text \<open>
  C8: for a gray triple \<open>R = G = B = c\<close> the source computes \<open>Y = c\<close>, \<open>R-Y = 0\<close> and
  \<open>B-Y = 0\<close> exactly, in its floating-point arithmetic as well as in exact arithmetic, and
  for every RGB8 triple the luminance is at most \<open>max R G B\<close>.
\<close>

theorem gray_and_luminance_bound:
  assumes "0 \<le> c" "c \<le> 255"
    and "0 \<le> R" "R \<le> 255" "0 \<le> G" "G \<le> 255" "0 \<le> B" "B \<le> 255"
  shows "convertToSSTV c c c = (of_int c, 0, 0)
    \<and> fst (convertToSSTV R G B) \<le> of_int (max R (max G B))"
proof -
  have "fst (convertToSSTV R G B) = lumaOf R G B" by (simp add: convertToSSTV_def Let_def)
  then show ?thesis
    using convertToSSTV_gray [OF assms(1,2)] lumaOf_le_max [OF assms(3-8)] by simp
qed

theorem gray_and_luminance_bound_witness:
  "(0::int) \<le> 128 \<and> (128::int) \<le> 255 \<and> (0::int) \<le> 10 \<and> (10::int) \<le> 255
   \<and> (0::int) \<le> 200 \<and> (200::int) \<le> 255 \<and> (0::int) \<le> 30 \<and> (30::int) \<le> 255
   \<and> convertToSSTV 128 128 128 = (128, 0, 0)
   \<and> fst (convertToSSTV 10 200 30) \<le> 200"
  using gray_and_luminance_bound [of 128 10 200 30] by simp

section \<open>Canvas reads stay inside the surface\<close>

text \<open>
  C9: during a transmission every call of \<open>getCanvasPixel\<close> has \<open>0 \<le> x < 640\<close> and
  \<open>0 \<le> y < 496\<close>, and the index \<open>y * imageWidth + x\<close> it computes is inside the buffer.
  The coordinates read are, pair by pair, the columns 0 to 639 of row 2k, of rows 2k and
  2k+1 (twice), and of row 2k+1; the transmission never faults.
\<close>

theorem canvas_reads_in_surface:
  "\<exists>s'. transmitPD120Image_HW cv s = Inr s'
     \<and> accessed s' = accessed s @ concat (map linePairReads [0..247])
     \<and> (\<forall>p \<in> set (concat (map linePairReads [0..247])). inSurface p)"
proof -
  have h: "imageHeight div 2 - 1 = 247" by (simp add: imageHeight_def)
  from transmitPD120Image_HW_run [of cv s] show ?thesis
    unfolding h using all_reads_in_surface by blast
qed

theorem canvas_reads_in_surface_witness:
  "\<exists>s'. transmitPD120Image_HW (\<lambda>i. 0) initialState = Inr s'
     \<and> (0, 0) \<in> set (accessed s') \<and> inSurface (0, 0)"
proof -
  from canvas_reads_in_surface [of "\<lambda>i. 0" initialState] obtain s' where
    s': "transmitPD120Image_HW (\<lambda>i. 0) initialState = Inr s'"
      "accessed s' = accessed initialState @ concat (map linePairReads [0..247])"
      "\<forall>p \<in> set (concat (map linePairReads [0..247])). inSurface p"
    by blast
  have "(0, 0) \<in> set (accessed s')" unfolding s'(2) using first_read by simp
  moreover have "inSurface (0, 0)" using s'(3) first_read by blast
  ultimately show ?thesis using s'(1) by blast
qed

section \<open>The cast in mapDiffToFrequency is defined\<close>

text \<open>
  C10: for any two canvas words, decoded to RGB8 as the callback does, the averaged R-Y
  and the averaged B-Y lie strictly between -128 and 128, the floating-point value that
  \<open>mapDiffToFrequency\<close> converts to \<^verbatim>\<open>uint32_t\<close> is not negative, and the conversion
  is defined.
\<close>

theorem averaged_difference_cast_defined:
  "case rgb565 w1 of (R1, G1, B1) \<Rightarrow>
   case rgb565 w2 of (R2, G2, B2) \<Rightarrow>
   case convertToSSTV R1 G1 B1 of (Y1, RY1, BY1) \<Rightarrow>
   case convertToSSTV R2 G2 B2 of (Y2, RY2, BY2) \<Rightarrow>
     - 128 < averageDiff RY1 RY2 \<and> averageDiff RY1 RY2 < 128
     \<and> - 128 < averageDiff BY1 BY2 \<and> averageDiff BY1 BY2 < 128
     \<and> 0 \<le> dmul (ddiv (dadd (averageDiff RY1 RY2) 128) 255) 800
     \<and> 0 \<le> dmul (ddiv (dadd (averageDiff BY1 BY2) 128) 255) 800
     \<and> cast_uint32 (dmul (ddiv (dadd (averageDiff RY1 RY2) 128) 255) 800)
         = Inr \<lfloor>dmul (ddiv (dadd (averageDiff RY1 RY2) 128) 255) 800\<rfloor>
     \<and> cast_uint32 (dmul (ddiv (dadd (averageDiff BY1 BY2) 128) 255) 800)
         = Inr \<lfloor>dmul (ddiv (dadd (averageDiff BY1 BY2) 128) 255) 800\<rfloor>"
proof -
  obtain R1 G1 B1 where p1: "rgb565 w1 = (R1, G1, B1)" by (cases "rgb565 w1")
  obtain R2 G2 B2 where p2: "rgb565 w2 = (R2, G2, B2)" by (cases "rgb565 w2")
  obtain Y1 RY1 BY1 where c1: "convertToSSTV R1 G1 B1 = (Y1, RY1, BY1)"
    by (cases "convertToSSTV R1 G1 B1")
  obtain Y2 RY2 BY2 where c2: "convertToSSTV R2 G2 B2 = (Y2, RY2, BY2)"
    by (cases "convertToSSTV R2 G2 B2")
  note d1 = pixel_diff_bounds [OF p1 c1]
  note d2 = pixel_diff_bounds [OF p2 c2]
  have r: "\<bar>averageDiff RY1 RY2\<bar> \<le> 1276 / 10" using d1(1) d2(1) by (rule averageDiff_bound)
  have b: "\<bar>averageDiff BY1 BY2\<bar> \<le> 1276 / 10" using d1(2) d2(2) by (rule averageDiff_bound)
  note ar = mapDiff_arg_bounds [OF r]
  note ab = mapDiff_arg_bounds [OF b]
  have cr: "cast_uint32 (dmul (ddiv (dadd (averageDiff RY1 RY2) 128) 255) 800)
         = Inr \<lfloor>dmul (ddiv (dadd (averageDiff RY1 RY2) 128) 255) 800\<rfloor>"
    using ar by (intro cast_uint32_nonneg) simp_all
  have cb: "cast_uint32 (dmul (ddiv (dadd (averageDiff BY1 BY2) 128) 255) 800)
         = Inr \<lfloor>dmul (ddiv (dadd (averageDiff BY1 BY2) 128) 255) 800\<rfloor>"
    using ab by (intro cast_uint32_nonneg) simp_all
  have "- 128 < averageDiff RY1 RY2" "averageDiff RY1 RY2 < 128"
    "- 128 < averageDiff BY1 BY2" "averageDiff BY1 BY2 < 128"
    using r b by linarith+
  then show ?thesis unfolding p1 p2 c1 c2 prod.case using ar(1) ab(1) cr cb by blast
qed

end
